theory Spec2Isabelle
  imports Main "HOL-Library.Word" "HOL-Library.Sublist"
begin

unbundle bit_operations_syntax

section \<open>Bit enum utilities (SPIRVUtilsGen.cpp, BitEnum AutoGen)\<close>

text \<open>
  The generator reads an enum definition through \<open>mlir::tblgen::EnumAttr\<close> and writes
  C++ functions. The embedding gives each \<open>emit...\<close> function the meaning of the text
  it writes: a HOL function over the underlying integer of the enum. The underlying type
  of a bit enum is \<open>uint32_t\<close>, so symbols and case values are 32-bit words; a case is
  the pair of \<open>getSymbol()\<close> and \<open>getValue()\<close>, in declaration order.
\<close>

type_synonym enumerant = "string \<times> 32 word"

record EnumAttr =
  getEnumClassName :: string
  getAllCases :: "enumerant list"
  separator :: string

text \<open>
  Modelled from the spec: the enum class itself is declared by \<open>emitEnumDecl\<close> of
  EnumsGen, which is not part of this file. The data model reserves the value 0 for the
  symbol \<open>None\<close>, so the enumerator \<open>E::None\<close> that the emitted code returns is the
  zero word.
\<close>

definition enum_None :: "32 word" where
  "enum_None = 0"

subsection \<open>Library functions the emitted code calls\<close>

text \<open>\<open>llvm::join(strs, sep)\<close>: the strings with the separator between neighbours.\<close>

fun join :: "string list \<Rightarrow> string \<Rightarrow> string" where
  "join [] sep = []"
| "join [s] sep = s"
| "join (s # t # ss) sep = s @ sep @ join (t # ss) sep"

text \<open>
  \<open>StringRef::find(sep)\<close>: the index of the first occurrence of \<open>sep\<close>, \<open>None\<close> for
  \<open>npos\<close>. The empty string is found at index 0.
\<close>

fun find_str :: "string \<Rightarrow> string \<Rightarrow> nat option" where
  "find_str sep [] = (if sep = [] then Some 0 else None)"
| "find_str sep (c # cs) =
     (if prefix sep (c # cs) then Some 0 else map_option Suc (find_str sep cs))"

text \<open>
  \<open>StringRef::split(symbols, sep)\<close> with the default arguments (no limit, empty pieces
  kept): while the separator is found, push the piece before it and jump behind it; then
  push the tail. The loop makes no progress on an empty separator, so the function is
  partial: \<open>None\<close> stands for a call that does not return.
\<close>

partial_function (option) split_str :: "string \<Rightarrow> string \<Rightarrow> string list option" where
  "split_str sep s =
     (case find_str sep s of
        None \<Rightarrow> Some [s]
      | Some idx \<Rightarrow>
          Option.bind (split_str sep (drop (idx + length sep) s))
            (\<lambda>rest. Some (take idx s # rest)))"

subsection \<open>Symbol to string\<close>

text \<open>
  \<open>emitSymToStrFnForBitEnum\<close> writes, for each enumerant with a non-zero value \<open>v\<close>
  and symbol \<open>sym\<close>, in declaration order, the statement
  \<^verbatim>\<open>if (v & val) { strs.push_back("sym"); val &= ~v; }\<close>.
  \<open>symToStr_body\<close> runs these statements on the working copy \<open>val\<close> and the list
  \<open>strs\<close>.
\<close>

fun symToStr_body :: "enumerant list \<Rightarrow> 32 word \<Rightarrow> string list \<Rightarrow> 32 word \<times> string list" where
  "symToStr_body [] val strs = (val, strs)"
| "symToStr_body ((symb, v) # es) val strs =
     (if v \<noteq> 0
      then (if v AND val \<noteq> 0
            then symToStr_body es (val AND NOT v) (strs @ [symb])
            else symToStr_body es val strs)
      else symToStr_body es val strs)"

text \<open>
  The emitted function: \<open>"None"\<close> when all bits are unset; the empty string when a bit
  is left after all cases; the joined names otherwise.
\<close>

definition emitSymToStrFnForBitEnum :: "EnumAttr \<Rightarrow> 32 word \<Rightarrow> string" where
  "emitSymToStrFnForBitEnum enumAttr symbol =
     (if symbol = 0 then ''None''
      else (case symToStr_body (getAllCases enumAttr) symbol [] of
              (val, strs) \<Rightarrow> if val \<noteq> 0 then [] else join strs (separator enumAttr)))"

subsection \<open>String to symbol\<close>

text \<open>
  The emitted \<open>llvm::StringSwitch\<close>: one \<open>.Case("sym", v)\<close> for each enumerant with a
  non-zero value, in declaration order, the first match deciding, and
  \<open>.Default(llvm::None)\<close>.
\<close>

fun stringSwitch :: "enumerant list \<Rightarrow> string \<Rightarrow> 32 word option" where
  "stringSwitch [] symbol = None"
| "stringSwitch ((symb, v) # es) symbol =
     (if v \<noteq> 0
      then (if symbol = symb then Some v else stringSwitch es symbol)
      else stringSwitch es symbol)"

text \<open>
  The emitted loop over the pieces:
  \<^verbatim>\<open>if (bit) { val |= *bit; } else { return llvm::None; }\<close>.
\<close>

fun strToSym_loop :: "enumerant list \<Rightarrow> string list \<Rightarrow> 32 word \<Rightarrow> 32 word option" where
  "strToSym_loop es [] val = Some val"
| "strToSym_loop es (symbol # symbols) val =
     (case stringSwitch es symbol of
        Some b \<Rightarrow> strToSym_loop es symbols (val OR b)
      | None \<Rightarrow> None)"

text \<open>
  The emitted function. The outer \<open>option\<close> is \<open>None\<close> when the call does not return
  (the split on an empty separator); \<open>Some None\<close> is the result \<open>llvm::None\<close>.
\<close>

definition emitStrToSymFnForBitEnum :: "EnumAttr \<Rightarrow> string \<Rightarrow> 32 word option option" where
  "emitStrToSymFnForBitEnum enumAttr str =
     (if str = ''None'' then Some (Some enum_None)
      else (case split_str (separator enumAttr) str of
              None \<Rightarrow> None
            | Some symbols \<Rightarrow> Some (strToSym_loop (getAllCases enumAttr) symbols 0)))"

subsection \<open>Underlying integer to symbol\<close>

text \<open>
  The generator collects the non-zero case values and joins them with \<open>" | "\<close> into the
  mask of the emitted test \<^verbatim>\<open>if (value & ~(v1 | v2 | ...)) return llvm::None;\<close>.
  \<open>joined_values\<close> is the value of that expression. (For an enum without a non-zero
  case the generator writes an empty mask, which is not an expression; the fold gives 0
  there.)
\<close>

fun nonzero_values :: "enumerant list \<Rightarrow> 32 word list" where
  "nonzero_values [] = []"
| "nonzero_values ((symb, v) # es) = (if v \<noteq> 0 then v # nonzero_values es else nonzero_values es)"

definition joined_values :: "32 word list \<Rightarrow> 32 word" where
  "joined_values vs = foldl (OR) 0 vs"

definition emitUnderlyingToSymFnForBitEnum :: "EnumAttr \<Rightarrow> 32 word \<Rightarrow> 32 word option" where
  "emitUnderlyingToSymFnForBitEnum enumAttr value =
     (if value = 0 then Some enum_None
      else if value AND NOT (joined_values (nonzero_values (getAllCases enumAttr))) \<noteq> 0 then None
      else Some value)"

text \<open>The bit enum of the spec's scenario: Read = 1, Write = 2, Execute = 4, separator "|".\<close>

definition rwx_enum :: EnumAttr where
  "rwx_enum = \<lparr> getEnumClassName = ''Access'',
       getAllCases = [(''None'', 0), (''Read'', 1), (''Write'', 2), (''Execute'', 4)],
       separator = ''|'' \<rparr>"

section \<open>Instruction schemas and the runtime they are compiled against\<close>

text \<open>
  The generator reads each op definition through \<open>llvm::Record\<close> and
  \<open>mlir::tblgen::Operator\<close>, whose declarations are not in this file; the records below
  hold exactly the fields the generator reads. An argument is either a
  \<open>NamedTypeConstraint\<close> (a value operand, possibly variadic) or a \<open>NamedAttribute\<close>.
  For an attribute the generator looks at \<open>attr.isOptional()\<close>, \<open>attr.getBaseAttr()\<close>,
  \<open>getAttrDefName()\<close> and \<open>isEnumAttr()\<close>.
\<close>

record Attribute =
  getAttrDefName :: string
  isEnumAttr :: bool

record NamedAttribute =
  attrName :: string
  attrIsOptional :: bool
  attrSelf :: Attribute
  attrBaseAttr :: Attribute

datatype Argument =
    NamedTypeConstraint (isVariadic: bool)
  | NamedAttributeArg NamedAttribute

text \<open>
  \<open>spirvOpcode\<close> is the enumerator \<open>spirv::Opcode::<spirvOpName>\<close> that the emitted
  \<open>getOpcode\<close> function and the emitted \<open>case\<close> label name.
\<close>

record Operator =
  getQualCppClassName :: string
  spirvOpcode :: "32 word"
  hasOpcode :: bool
  autogenSerialization :: bool
  getNumResults :: nat
  getArgs :: "Argument list"

text \<open>\<open>PrintFatalError\<close> ends the generator; each call site is one constructor.\<close>

datatype FatalError =
    SerOnlyZeroOrOneResult
  | SerUnhandledAttributeType string
  | DeserOnlyZeroOrOneResult
  | DeserVariadicNotLast
  | DeserUnhandledAttributeType string

subsection \<open>The IR the emitted code works on\<close>

text \<open>
  Types and values of the IR are opaque to the emitted code. An integer attribute is
  read through \<open>getValue().getZExtValue()\<close>, a 64-bit unsigned number; other attributes
  are arrays or something that is neither (a string attribute stands for those).
\<close>

type_synonym mlirType = nat

datatype mlirValue = BlockArgument nat | OpResult nat

datatype AttrValue =
    IntegerAttr "64 word"
  | ArrayAttr "AttrValue list"
  | StringAttr string

type_synonym NamedAttr = "string \<times> AttrValue"

text \<open>
  The op handed to the emitted \<open>Serializer::processOp\<close>: its class (what \<open>isa\<close>
  tests), \<open>getType()\<close>, \<open>getResult()\<close>, the operand groups \<open>getODSOperands(i)\<close> and
  \<open>getAttrs()\<close>.
\<close>

record Operation =
  opClass :: string
  opType :: mlirType
  opResult :: mlirValue
  odsOperands :: "mlirValue list list"
  opAttrs :: "NamedAttr list"

definition getODSOperands :: "Operation \<Rightarrow> nat \<Rightarrow> mlirValue list" where
  \<comment> \<open>An op of the class has one group per operand argument; no group, no values.\<close>
  "getODSOperands op i = (if i < length (odsOperands op) then odsOperands op ! i else [])"

definition getAttr :: "Operation \<Rightarrow> string \<Rightarrow> AttrValue option" where
  "getAttr op n = map_of (opAttrs op) n"

subsection \<open>The serializer's state and services\<close>

text \<open>
  A diagnostic raised with \<open>emitError\<close> whose result is dropped is recorded in the
  state; a \<open>return failure()\<close> or \<open>return emitError(...)\<close> is the error result of
  the emitted function.
\<close>

datatype SerDiagnostic = UseBeforeDef nat

datatype SerError =
    UnresolvedType
  | UnsupportedDecoration string
  | AttrCastFailed string
  | UnhandledEncode

record Serializer =
  typeIDMap :: "mlirType \<rightharpoonup> 32 word"
  nextID :: "32 word"
  valueIDMap :: "mlirValue \<rightharpoonup> 32 word"
  instructionStream :: "(32 word \<times> 32 word list) list"
  knownDecorations :: "string list"
  decorationRecords :: "(32 word \<times> NamedAttr) list"
  diagnostics :: "SerDiagnostic list"

text \<open>
  Modelled from the spec: \<open>Serializer::processType\<close> is not in this file. It resolves
  the type to its numeric id and fails when the type has not been registered.
\<close>

definition processType :: "Serializer \<Rightarrow> mlirType \<Rightarrow> 32 word option" where
  "processType s ty = typeIDMap s ty"

text \<open>
  Modelled from the spec: \<open>getNextID\<close> allocates a fresh id (the ids increase), and
  \<open>findValueID\<close> looks up the id assigned to a value; the emitted code tests the
  result with \<open>!argID\<close>, so the id of a value without one is 0.
\<close>

definition getNextID :: "Serializer \<Rightarrow> 32 word \<times> Serializer" where
  "getNextID s = (nextID s, s\<lparr>nextID := nextID s + 1\<rparr>)"

definition findValueID :: "Serializer \<Rightarrow> mlirValue \<Rightarrow> 32 word" where
  "findValueID s v = (case valueIDMap s v of None \<Rightarrow> 0 | Some i \<Rightarrow> i)"

definition emitError :: "Serializer \<Rightarrow> SerDiagnostic \<Rightarrow> Serializer" where
  "emitError s d = s\<lparr>diagnostics := diagnostics s @ [d]\<rparr>"

text \<open>
  Modelled from the spec: \<open>encodeInstructionInto\<close> appends the pair of opcode and word
  list to the instruction stream (the buffer \<open>functions\<close> of the serializer).
\<close>

definition encodeInstructionInto :: "Serializer \<Rightarrow> 32 word \<Rightarrow> 32 word list \<Rightarrow> Serializer" where
  "encodeInstructionInto s opcode operands = s\<lparr>instructionStream := instructionStream s @ [(opcode, operands)]\<rparr>"

text \<open>
  Modelled from the spec: \<open>processDecoration\<close> writes one decorate record keyed by the
  result id and carrying the attribute; it fails for an attribute it cannot encode
  (\<open>knownDecorations\<close> names those it can).
\<close>

definition processDecoration :: "Serializer \<Rightarrow> 32 word \<Rightarrow> NamedAttr \<Rightarrow> Serializer option" where
  "processDecoration s resultID a =
     (if fst a \<in> set (knownDecorations s)
      then Some (s\<lparr>decorationRecords := decorationRecords s @ [(resultID, a)]\<rparr>)
      else None)"

subsection \<open>The deserializer's state and services\<close>

datatype Truncation = MissingResultType | MissingResultId

datatype DeserError =
    TruncatedStream Truncation string
  | UnknownType "32 word"
  | UnknownValueId "32 word"
  | TrailingData string nat nat
  | UnhandledOpcode string

text \<open>The op that \<open>opBuilder.create\<close> builds from result types, operands and attributes.\<close>

record CreatedOp =
  createdClass :: string
  resultTypes :: "mlirType list"
  createdOperands :: "mlirValue list"
  createdAttributes :: "NamedAttr list"

record Deserializer =
  typeMap :: "32 word \<rightharpoonup> mlirType"
  valueMap :: "32 word \<rightharpoonup> mlirValue"
  decorations :: "32 word \<rightharpoonup> NamedAttr list"
  createdOps :: "CreatedOp list"

text \<open>
  Modelled from the spec: \<open>getType\<close> and \<open>getValue\<close> are the lookups by numeric id
  (null when absent), and \<open>opBuilder.create\<close> constructs the node; the result of the
  \<open>k\<close>-th op built is the value \<open>OpResult k\<close>.
\<close>

definition getType :: "Deserializer \<Rightarrow> 32 word \<Rightarrow> mlirType option" where
  "getType d w = typeMap d w"

definition getValue :: "Deserializer \<Rightarrow> 32 word \<Rightarrow> mlirValue option" where
  "getValue d w = valueMap d w"

definition create :: "Deserializer \<Rightarrow> CreatedOp \<Rightarrow> mlirValue \<times> Deserializer" where
  "create d op = (OpResult (length (createdOps d)), d\<lparr>createdOps := createdOps d @ [op]\<rparr>)"

text \<open>\<open>opBuilder.getI32IntegerAttr(word)\<close>: a 32-bit integer attribute.\<close>

definition getI32IntegerAttr :: "32 word \<Rightarrow> AttrValue" where
  "getI32IntegerAttr w = IntegerAttr (ucast w)"

section \<open>Serialization AutoGen\<close>

subsection \<open>emitAttributeSerialization\<close>

text \<open>
  The state of an emitted \<open>Serializer::processOp\<close> between two argument blocks: the
  serializer and the locals \<open>operands\<close> and \<open>elidedAttrs\<close>. A block is a function of
  the op on that state.
\<close>

type_synonym SerState = "Serializer \<times> 32 word list \<times> string list"

type_synonym SerBlock = "Operation \<Rightarrow> SerState \<Rightarrow> SerError + SerState"

text \<open>\<open>attr.cast<IntegerAttr>()\<close> asserts the kind of the attribute.\<close>

fun castIntegerAttr :: "AttrValue \<Rightarrow> 64 word option" where
  "castIntegerAttr (IntegerAttr v) = Some v"
| "castIntegerAttr (ArrayAttr es) = None"
| "castIntegerAttr (StringAttr t) = None"

fun castArrayAttr :: "AttrValue \<Rightarrow> AttrValue list option" where
  "castArrayAttr (ArrayAttr es) = Some es"
| "castArrayAttr (IntegerAttr v) = None"
| "castArrayAttr (StringAttr t) = None"

text \<open>
  The loop emitted for an \<open>I32ArrayAttr\<close>: each element is cast to an integer attribute
  and pushed as \<open>static_cast<uint32_t>\<close> of its value.
\<close>

fun pushArrayElems :: "string \<Rightarrow> AttrValue list \<Rightarrow> 32 word list \<Rightarrow> SerError + 32 word list" where
  "pushArrayElems n [] operands = Inr operands"
| "pushArrayElems n (attrElem # es) operands =
     (case castIntegerAttr attrElem of
        None \<Rightarrow> Inl (AttrCastFailed n)
      | Some v \<Rightarrow> pushArrayElems n es (operands @ [ucast v]))"

definition serArrayAttr :: "string \<Rightarrow> Operation \<Rightarrow> 32 word list \<Rightarrow> SerError + 32 word list" where
  "serArrayAttr n op operands =
     (case getAttr op n of
        None \<Rightarrow> Inr operands
      | Some a \<Rightarrow>
          (case castArrayAttr a of
             None \<Rightarrow> Inl (AttrCastFailed n)
           | Some es \<Rightarrow> pushArrayElems n es operands))"

definition serIntegerAttr :: "string \<Rightarrow> Operation \<Rightarrow> 32 word list \<Rightarrow> SerError + 32 word list" where
  "serIntegerAttr n op operands =
     (case getAttr op n of
        None \<Rightarrow> Inr operands
      | Some a \<Rightarrow>
          (case castIntegerAttr a of
             None \<Rightarrow> Inl (AttrCastFailed n)
           | Some v \<Rightarrow> Inr (operands @ [ucast v])))"

definition emitAttributeSerialization ::
  "Attribute \<Rightarrow> string \<Rightarrow> FatalError + (Operation \<Rightarrow> 32 word list \<Rightarrow> SerError + 32 word list)" where
  "emitAttributeSerialization a n =
     (if getAttrDefName a = ''I32ArrayAttr'' then Inr (serArrayAttr n)
      else if isEnumAttr a \<or> getAttrDefName a = ''I32Attr'' then Inr (serIntegerAttr n)
      else Inl (SerUnhandledAttributeType (getAttrDefName a)))"

subsection \<open>emitSerializationFunction\<close>

text \<open>
  The block emitted when the op has one result: the type id, then a fresh result id,
  which is recorded for the result value. It also yields the local \<open>resultID\<close>.
\<close>

definition serResult :: "Operation \<Rightarrow> Serializer \<Rightarrow> 32 word list \<Rightarrow> SerError + (Serializer \<times> 32 word list \<times> 32 word)" where
  "serResult op s operands =
     (case processType s (opType op) of
        None \<Rightarrow> Inl UnresolvedType
      | Some resultTypeID \<Rightarrow>
          (case getNextID s of
             (resultID, s1) \<Rightarrow>
               Inr (s1\<lparr>valueIDMap := (valueIDMap s1)(opResult op \<mapsto> resultID)\<rparr>,
                    (operands @ [resultTypeID]) @ [resultID], resultID)))"

text \<open>
  The loop emitted for a value operand, variadic or not:
  \<^verbatim>\<open>for (auto arg : op.getODSOperands(N)) {
    auto argID = findValueID(arg);
    if (!argID) { emitError(op.getLoc(), "operand N has a use before def"); }
    operands.push_back(argID);
  }\<close>
  The result of \<open>emitError\<close> is not returned.
\<close>

fun serOperandLoop :: "nat \<Rightarrow> mlirValue list \<Rightarrow> Serializer \<Rightarrow> 32 word list \<Rightarrow> Serializer \<times> 32 word list" where
  "serOperandLoop operandNum [] s operands = (s, operands)"
| "serOperandLoop operandNum (arg # args) s operands =
     (let argID = findValueID s arg;
          s1 = (if argID = 0 then emitError s (UseBeforeDef operandNum) else s)
      in serOperandLoop operandNum args s1 (operands @ [argID]))"

definition serOperandBlock :: "nat \<Rightarrow> SerBlock" where
  "serOperandBlock operandNum op st =
     (case st of (s, operands, elidedAttrs) \<Rightarrow>
        (case serOperandLoop operandNum (getODSOperands op operandNum) s operands of
           (s1, operands1) \<Rightarrow> Inr (s1, operands1, elidedAttrs)))"

definition serAttrBlock :: "(Operation \<Rightarrow> 32 word list \<Rightarrow> SerError + 32 word list) \<Rightarrow> string \<Rightarrow> SerBlock" where
  "serAttrBlock body n op st =
     (case st of (s, operands, elidedAttrs) \<Rightarrow>
        (case body op operands of
           Inl e \<Rightarrow> Inl e
         | Inr operands1 \<Rightarrow> Inr (s, operands1, elidedAttrs @ [n])))"

text \<open>
  The generator's loop over the arguments, with its counter \<open>operandNum\<close>; it yields
  the emitted blocks in order, or the fatal error of the first unhandled attribute.
\<close>

fun emitSerArgs :: "nat \<Rightarrow> Argument list \<Rightarrow> FatalError + SerBlock list" where
  "emitSerArgs operandNum [] = Inr []"
| "emitSerArgs operandNum (NamedTypeConstraint v # args) =
     (case emitSerArgs (Suc operandNum) args of
        Inl e \<Rightarrow> Inl e
      | Inr bs \<Rightarrow> Inr (serOperandBlock operandNum # bs))"
| "emitSerArgs operandNum (NamedAttributeArg a # args) =
     (case emitAttributeSerialization
             (if attrIsOptional a then attrBaseAttr a else attrSelf a) (attrName a) of
        Inl e \<Rightarrow> Inl e
      | Inr body \<Rightarrow>
          (case emitSerArgs operandNum args of
             Inl e \<Rightarrow> Inl e
           | Inr bs \<Rightarrow> Inr (serAttrBlock body (attrName a) # bs)))"

fun runSerBlocks :: "SerBlock list \<Rightarrow> Operation \<Rightarrow> SerState \<Rightarrow> SerError + SerState" where
  "runSerBlocks [] op st = Inr st"
| "runSerBlocks (b # bs) op st =
     (case b op st of Inl e \<Rightarrow> Inl e | Inr st1 \<Rightarrow> runSerBlocks bs op st1)"

text \<open>
  The loop emitted after the instruction is encoded, for an op with one result: every
  attribute that is not elided goes to \<open>processDecoration\<close>.
\<close>

fun serDecorations :: "32 word \<Rightarrow> string list \<Rightarrow> NamedAttr list \<Rightarrow> Serializer \<Rightarrow> SerError + Serializer" where
  "serDecorations resultID elidedAttrs [] s = Inr s"
| "serDecorations resultID elidedAttrs (a # as) s =
     (if list_ex (\<lambda>elided. fst a = elided) elidedAttrs
      then serDecorations resultID elidedAttrs as s
      else (case processDecoration s resultID a of
              None \<Rightarrow> Inl (UnsupportedDecoration (fst a))
            | Some s1 \<Rightarrow> serDecorations resultID elidedAttrs as s1))"

text \<open>The emitted \<open>Serializer::processOp\<close> specialisation, from its blocks.\<close>

definition serFunction :: "Operator \<Rightarrow> SerBlock list \<Rightarrow> Operation \<Rightarrow> Serializer \<Rightarrow> SerError + Serializer" where
  "serFunction op blocks node s =
     (case (if getNumResults op = 1 then serResult node s [] else Inr (s, [], 0)) of
        Inl e \<Rightarrow> Inl e
      | Inr (s1, operands1, resultID) \<Rightarrow>
          (case runSerBlocks blocks node (s1, operands1, []) of
             Inl e \<Rightarrow> Inl e
           | Inr (s2, operands2, elidedAttrs) \<Rightarrow>
               (if getNumResults op = 1
                then serDecorations resultID elidedAttrs (opAttrs node)
                       (encodeInstructionInto s2 (spirvOpcode op) operands2)
                else Inr (encodeInstructionInto s2 (spirvOpcode op) operands2))))"

text \<open>
  The generator: nothing for a record with \<open>autogenSerialization\<close> unset; a fatal
  error for more than one result or an unhandled attribute; the emitted function
  otherwise.
\<close>

definition emitSerializationFunction ::
  "Operator \<Rightarrow> FatalError + (Operation \<Rightarrow> Serializer \<Rightarrow> SerError + Serializer) option" where
  "emitSerializationFunction op =
     (if \<not> autogenSerialization op then Inr None
      else if getNumResults op \<noteq> 1 \<and> getNumResults op \<noteq> 0 then Inl SerOnlyZeroOrOneResult
      else (case emitSerArgs 0 (getArgs op) of
              Inl e \<Rightarrow> Inl e
            | Inr blocks \<Rightarrow> Inr (Some (serFunction op blocks))))"

section \<open>Deserialization AutoGen\<close>

subsection \<open>emitAttributeDeserialization\<close>

text \<open>
  The state of an emitted \<open>Deserializer::processOp\<close> between two argument blocks: the
  locals \<open>wordIndex\<close>, \<open>operands\<close> and \<open>attributes\<close>. A block reads the words and
  the deserializer's maps.
\<close>

type_synonym DeserState = "nat \<times> mlirValue list \<times> NamedAttr list"

type_synonym DeserBlock = "32 word list \<Rightarrow> Deserializer \<Rightarrow> DeserState \<Rightarrow> DeserError + DeserState"

text \<open>
  The loop emitted for an \<open>I32ArrayAttr\<close>:
  \<^verbatim>\<open>while (wordIndex < words.size()) {
    attrListElems.push_back(opBuilder.getI32IntegerAttr(words[wordIndex++]));
  }\<close>
\<close>

function deserArrayLoop :: "32 word list \<Rightarrow> nat \<Rightarrow> AttrValue list \<Rightarrow> nat \<times> AttrValue list" where
  "deserArrayLoop words wordIndex attrListElems =
     (if wordIndex < length words
      then deserArrayLoop words (Suc wordIndex) (attrListElems @ [getI32IntegerAttr (words ! wordIndex)])
      else (wordIndex, attrListElems))"
  by pat_completeness auto
termination
  by (relation "measure (\<lambda>(words, wordIndex, attrListElems). length words - wordIndex)") auto

declare deserArrayLoop.simps [simp del]

definition deserArrayAttr :: "string \<Rightarrow> DeserBlock" where
  "deserArrayAttr n words d st =
     (case st of (wordIndex, operands, attributes) \<Rightarrow>
        (case deserArrayLoop words wordIndex [] of
           (wordIndex1, attrListElems) \<Rightarrow>
             Inr (wordIndex1, operands, attributes @ [(n, ArrayAttr attrListElems)])))"

definition deserIntegerAttr :: "string \<Rightarrow> DeserBlock" where
  "deserIntegerAttr n words d st =
     (case st of (wordIndex, operands, attributes) \<Rightarrow>
        Inr (Suc wordIndex, operands, attributes @ [(n, getI32IntegerAttr (words ! wordIndex))]))"

definition emitAttributeDeserialization :: "Attribute \<Rightarrow> string \<Rightarrow> FatalError + DeserBlock" where
  "emitAttributeDeserialization a n =
     (if getAttrDefName a = ''I32ArrayAttr'' then Inr (deserArrayAttr n)
      else if isEnumAttr a \<or> getAttrDefName a = ''I32Attr'' then Inr (deserIntegerAttr n)
      else Inl (DeserUnhandledAttributeType (getAttrDefName a)))"

subsection \<open>emitDeserializationFunction\<close>

text \<open>
  The block emitted when the op has one result. It yields \<open>wordIndex\<close>,
  \<open>resultTypes\<close> and \<open>valueID\<close>; the error messages name the op class.
\<close>

definition deserResult :: "string \<Rightarrow> 32 word list \<Rightarrow> Deserializer \<Rightarrow> DeserError + (nat \<times> mlirType list \<times> 32 word)" where
  "deserResult cls words d =
     (if 0 \<ge> length words then Inl (TruncatedStream MissingResultType cls)
      else (case getType d (words ! 0) of
              None \<Rightarrow> Inl (UnknownType (words ! 0))
            | Some ty \<Rightarrow>
                (if 1 \<ge> length words then Inl (TruncatedStream MissingResultId cls)
                 else Inr (2, [ty], words ! 1))))"

text \<open>
  The block emitted for a value operand that is not variadic:
  \<^verbatim>\<open>if (wordIndex < words.size()) {
    auto arg = getValue(words[wordIndex]);
    if (!arg) { return emitError(unknownLoc, "unknown result <id> : ") << words[wordIndex]; }
    operands.push_back(arg);
    wordIndex++;
  }\<close>
\<close>

definition deserOperand :: DeserBlock where
  "deserOperand words d st =
     (case st of (wordIndex, operands, attributes) \<Rightarrow>
        (if wordIndex < length words
         then (case getValue d (words ! wordIndex) of
                 None \<Rightarrow> Inl (UnknownValueId (words ! wordIndex))
               | Some arg \<Rightarrow> Inr (Suc wordIndex, operands @ [arg], attributes))
         else Inr st))"

text \<open>
  The loop emitted for a variadic operand: the same body under
  \<^verbatim>\<open>for (; wordIndex < words.size(); ++wordIndex)\<close>.
\<close>

function deserVariadicLoop :: "32 word list \<Rightarrow> Deserializer \<Rightarrow> nat \<Rightarrow> mlirValue list \<Rightarrow> DeserError + (nat \<times> mlirValue list)" where
  "deserVariadicLoop words d wordIndex operands =
     (if wordIndex < length words
      then (case getValue d (words ! wordIndex) of
              None \<Rightarrow> Inl (UnknownValueId (words ! wordIndex))
            | Some arg \<Rightarrow> deserVariadicLoop words d (Suc wordIndex) (operands @ [arg]))
      else Inr (wordIndex, operands))"
  by pat_completeness auto
termination
  by (relation "measure (\<lambda>(words, d, wordIndex, operands). length words - wordIndex)") auto

declare deserVariadicLoop.simps [simp del]

definition deserVariadic :: DeserBlock where
  "deserVariadic words d st =
     (case st of (wordIndex, operands, attributes) \<Rightarrow>
        (case deserVariadicLoop words d wordIndex operands of
           Inl e \<Rightarrow> Inl e
         | Inr (wordIndex1, operands1) \<Rightarrow> Inr (wordIndex1, operands1, attributes)))"

text \<open>The attribute block is guarded by \<^verbatim>\<open>if (wordIndex < words.size())\<close>.\<close>

definition deserAttrBlock :: "DeserBlock \<Rightarrow> DeserBlock" where
  "deserAttrBlock body words d st =
     (case st of (wordIndex, operands, attributes) \<Rightarrow>
        (if wordIndex < length words then body words d st else Inr st))"

text \<open>
  The generator's loop \<^verbatim>\<open>for (unsigned i = 0, e = op.getNumArgs(); i < e; ++i)\<close>
  from index \<open>i\<close> on: a variadic operand that is not the last argument is a fatal
  error, and so is an unhandled attribute.
\<close>

fun emitDeserArgs :: "nat \<Rightarrow> nat \<Rightarrow> Argument list \<Rightarrow> FatalError + DeserBlock list" where
  "emitDeserArgs e i [] = Inr []"
| "emitDeserArgs e i (NamedTypeConstraint variadic # args) =
     (if variadic \<and> i \<noteq> e - 1 then Inl DeserVariadicNotLast
      else (case emitDeserArgs e (Suc i) args of
              Inl err \<Rightarrow> Inl err
            | Inr bs \<Rightarrow> Inr ((if variadic then deserVariadic else deserOperand) # bs)))"
| "emitDeserArgs e i (NamedAttributeArg a # args) =
     (case emitAttributeDeserialization
             (if attrIsOptional a then attrBaseAttr a else attrSelf a) (attrName a) of
        Inl err \<Rightarrow> Inl err
      | Inr body \<Rightarrow>
          (case emitDeserArgs e (Suc i) args of
             Inl err \<Rightarrow> Inl err
           | Inr bs \<Rightarrow> Inr (deserAttrBlock body # bs)))"

fun runDeserBlocks :: "DeserBlock list \<Rightarrow> DeserBlock" where
  "runDeserBlocks [] words d st = Inr st"
| "runDeserBlocks (b # bs) words d st =
     (case b words d st of Inl e \<Rightarrow> Inl e | Inr st1 \<Rightarrow> runDeserBlocks bs words d st1)"

text \<open>
  The emitted code up to the check of the word count: the result block, then the
  argument blocks. It yields the locals, \<open>wordIndex\<close> first.
\<close>

definition deserSlots ::
  "Operator \<Rightarrow> DeserBlock list \<Rightarrow> 32 word list \<Rightarrow> Deserializer \<Rightarrow>
     DeserError + (DeserState \<times> mlirType list \<times> 32 word)" where
  "deserSlots op blocks words d =
     (case (if getNumResults op = 1 then deserResult (getQualCppClassName op) words d
            else Inr (0, [], 0)) of
        Inl e \<Rightarrow> Inl e
      | Inr (wordIndex, resultTys, valueID) \<Rightarrow>
          (case runDeserBlocks blocks words d (wordIndex, [], []) of
             Inl e \<Rightarrow> Inl e
           | Inr st \<Rightarrow> Inr (st, resultTys, valueID)))"

text \<open>
  The rest of the emitted function: the check of the word count, the decorations stored
  under the result id, the construction of the op and the entry of its result in
  \<open>valueMap\<close>.
\<close>

definition deserFinish ::
  "Operator \<Rightarrow> 32 word list \<Rightarrow> Deserializer \<Rightarrow> DeserState \<times> mlirType list \<times> 32 word \<Rightarrow>
     DeserError + Deserializer" where
  "deserFinish op words d r =
     (case r of ((wordIndex, operands, attributes), resultTys, valueID) \<Rightarrow>
        (if wordIndex \<noteq> length words
         then Inl (TrailingData (getQualCppClassName op) wordIndex (length words))
         else (case create d
                      \<lparr> createdClass = getQualCppClassName op,
                        resultTypes = resultTys,
                        createdOperands = operands,
                        createdAttributes =
                          (if getNumResults op = 1
                           then (case decorations d valueID of
                                   Some attrs \<Rightarrow> attributes @ attrs
                                 | None \<Rightarrow> attributes)
                           else attributes) \<rparr> of
                 (res, d1) \<Rightarrow>
                   Inr (if getNumResults op = 1
                        then d1\<lparr>valueMap := (valueMap d1)(valueID \<mapsto> res)\<rparr>
                        else d1))))"

definition deserFunction :: "Operator \<Rightarrow> DeserBlock list \<Rightarrow> 32 word list \<Rightarrow> Deserializer \<Rightarrow> DeserError + Deserializer" where
  "deserFunction op blocks words d =
     (case deserSlots op blocks words d of
        Inl e \<Rightarrow> Inl e
      | Inr r \<Rightarrow> deserFinish op words d r)"

definition emitDeserializationFunction ::
  "Operator \<Rightarrow> FatalError + (32 word list \<Rightarrow> Deserializer \<Rightarrow> DeserError + Deserializer) option" where
  "emitDeserializationFunction op =
     (if \<not> autogenSerialization op then Inr None
      else if getNumResults op \<noteq> 1 \<and> getNumResults op \<noteq> 0 then Inl DeserOnlyZeroOrOneResult
      else (case emitDeserArgs (length (getArgs op)) 0 (getArgs op) of
              Inl e \<Rightarrow> Inl e
            | Inr blocks \<Rightarrow> Inr (Some (deserFunction op blocks))))"

section \<open>The driver and the dispatch functions\<close>

text \<open>
  \<open>emitSerializationFns\<close> collects its output in five buffers: \<open>utils\<close> (the
  \<open>getOpcode\<close> functions), \<open>serFn\<close> and \<open>deserFn\<close> (the emitted \<open>processOp\<close>
  specialisations, by op class), \<open>dSerFn\<close> (the chain of \<open>isa\<close> tests of
  \<open>dispatchToAutogenSerialization\<close>, one class per branch) and \<open>dDesFn\<close> (the
  \<open>case\<close> labels of \<open>dispatchToAutogenDeserialization\<close>, each with the class whose
  \<open>processOp\<close> it calls). The buffers reach the output stream only after the loop, so
  a fatal error leaves no output.
\<close>

type_synonym SerFn = "Operation \<Rightarrow> Serializer \<Rightarrow> SerError + Serializer"

type_synonym DeserFn = "32 word list \<Rightarrow> Deserializer \<Rightarrow> DeserError + Deserializer"

record GeneratedCode =
  utils :: "(string \<times> 32 word) list"
  serFn :: "(string \<times> SerFn) list"
  dSerFn :: "string list"
  deserFn :: "(string \<times> DeserFn) list"
  dDesFn :: "(32 word \<times> string) list"

definition emptyCode :: GeneratedCode where
  "emptyCode = \<lparr> utils = [], serFn = [], dSerFn = [], deserFn = [], dDesFn = [] \<rparr>"

definition emitted :: "string \<Rightarrow> 'f option \<Rightarrow> (string \<times> 'f) list" where
  "emitted cls f = (case f of None \<Rightarrow> [] | Some g \<Rightarrow> [(cls, g)])"

text \<open>
  The loop of \<open>emitSerializationFns\<close> over the definitions: a record without
  \<open>hasOpcode\<close> is skipped; for every other record the opcode function, the
  serialization function, the serialization dispatch branch, the deserialization
  function and the deserialization dispatch case are emitted, in this order.
\<close>

fun emitLoop :: "Operator list \<Rightarrow> GeneratedCode \<Rightarrow> FatalError + GeneratedCode" where
  "emitLoop [] g = Inr g"
| "emitLoop (def # defs) g =
     (if \<not> hasOpcode def then emitLoop defs g
      else (case emitSerializationFunction def of
              Inl e \<Rightarrow> Inl e
            | Inr ser \<Rightarrow>
                (case emitDeserializationFunction def of
                   Inl e \<Rightarrow> Inl e
                 | Inr deser \<Rightarrow>
                     emitLoop defs
                       \<lparr> utils = utils g @ [(getQualCppClassName def, spirvOpcode def)],
                         serFn = serFn g @ emitted (getQualCppClassName def) ser,
                         dSerFn = dSerFn g @ [getQualCppClassName def],
                         deserFn = deserFn g @ emitted (getQualCppClassName def) deser,
                         dDesFn = dDesFn g @ [(spirvOpcode def, getQualCppClassName def)] \<rparr>)))"

definition emitSerializationFns :: "Operator list \<Rightarrow> FatalError + GeneratedCode" where
  "emitSerializationFns defs = emitLoop defs emptyCode"

text \<open>
  \<open>processOp<C>\<close> is the emitted specialisation when there is one; the specialisation
  for a class that opted out of generation is written by hand and is a parameter here.
\<close>

definition serProcessOp :: "GeneratedCode \<Rightarrow> (string \<Rightarrow> SerFn) \<Rightarrow> string \<Rightarrow> SerFn" where
  "serProcessOp g handwritten cls =
     (case map_of (serFn g) cls of Some f \<Rightarrow> f | None \<Rightarrow> handwritten cls)"

definition deserProcessOp :: "GeneratedCode \<Rightarrow> (string \<Rightarrow> DeserFn) \<Rightarrow> string \<Rightarrow> DeserFn" where
  "deserProcessOp g handwritten cls =
     (case map_of (deserFn g) cls of Some f \<Rightarrow> f | None \<Rightarrow> handwritten cls)"

text \<open>
  The emitted \<open>dispatchToAutogenSerialization\<close>: the first branch whose \<open>isa\<close> test
  holds, else the error "unhandled operation serialization".
\<close>

fun serDispatchChain :: "string list \<Rightarrow> (string \<Rightarrow> SerFn) \<Rightarrow> SerFn" where
  "serDispatchChain [] processOp node s = Inl UnhandledEncode"
| "serDispatchChain (cls # rest) processOp node s =
     (if opClass node = cls then processOp cls node s
      else serDispatchChain rest processOp node s)"

definition dispatchToAutogenSerialization :: "GeneratedCode \<Rightarrow> (string \<Rightarrow> SerFn) \<Rightarrow> SerFn" where
  "dispatchToAutogenSerialization g handwritten =
     serDispatchChain (dSerFn g) (serProcessOp g handwritten)"

text \<open>
  Modelled from the spec: \<open>spirv::stringifyOpcode\<close> is the symbol-name lookup of the
  opcode enum, emitted by EnumsGen and not in this file. For the enum given by its cases
  it yields the symbol of the first case with the value, and the empty string for a
  value that no case has.
\<close>

fun stringifyOpcode :: "enumerant list \<Rightarrow> 32 word \<Rightarrow> string" where
  "stringifyOpcode [] opcode = []"
| "stringifyOpcode ((symb, v) # es) opcode =
     (if opcode = v then symb else stringifyOpcode es opcode)"

text \<open>
  The emitted \<open>dispatchToAutogenDeserialization\<close>: a \<open>switch\<close> over the opcode; below
  the empty \<open>default\<close> it returns
  \<^verbatim>\<open>emitError(unknownLoc, "unhandled deserialization of ") << spirv::stringifyOpcode(opcode)\<close>.
  The error carries what the message is built from: the result of the symbol-name
  lookup, which is a parameter here.
\<close>

definition dispatchToAutogenDeserialization ::
  "GeneratedCode \<Rightarrow> (string \<Rightarrow> DeserFn) \<Rightarrow> (32 word \<Rightarrow> string) \<Rightarrow> 32 word \<Rightarrow> DeserFn" where
  "dispatchToAutogenDeserialization g handwritten stringify opcode words d =
     (case map_of (dDesFn g) opcode of
        Some cls \<Rightarrow> deserProcessOp g handwritten cls words d
      | None \<Rightarrow> Inl (UnhandledOpcode (stringify opcode)))"

text \<open>What a run of the generator leaves: the two dispatch tables, or nothing.\<close>

definition routers :: "Operator list \<Rightarrow> (string list \<times> (32 word \<times> string) list) option" where
  "routers defs =
     (case emitSerializationFns defs of
        Inl e \<Rightarrow> None
      | Inr g \<Rightarrow> Some (dSerFn g, dDesFn g))"

definition generatedFunctions :: "Operator list \<Rightarrow> (string list \<times> string list) option" where
  "generatedFunctions defs =
     (case emitSerializationFns defs of
        Inl e \<Rightarrow> None
      | Inr g \<Rightarrow> Some (map fst (serFn g), map fst (deserFn g)))"

text \<open>Decoding one instruction with the code generated for a set of definitions.\<close>

definition decodeWith ::
  "Operator list \<Rightarrow> (string \<Rightarrow> DeserFn) \<Rightarrow> (32 word \<Rightarrow> string) \<Rightarrow> 32 word \<Rightarrow> 32 word list \<Rightarrow>
     Deserializer \<Rightarrow> (DeserError + Deserializer) option" where
  "decodeWith defs handwritten stringify opcode words d =
     (case emitSerializationFns defs of
        Inl e \<Rightarrow> None
      | Inr g \<Rightarrow> Some (dispatchToAutogenDeserialization g handwritten stringify opcode words d))"

subsection \<open>Schema properties the generator checks\<close>

definition resolvedAttr :: "NamedAttribute \<Rightarrow> Attribute" where
  "resolvedAttr a = (if attrIsOptional a then attrBaseAttr a else attrSelf a)"

definition unsupportedAttr :: "Attribute \<Rightarrow> bool" where
  "unsupportedAttr a =
     (getAttrDefName a \<noteq> ''I32ArrayAttr'' \<and> \<not> isEnumAttr a \<and> getAttrDefName a \<noteq> ''I32Attr'')"

fun hasUnsupportedAttr :: "Argument list \<Rightarrow> bool" where
  "hasUnsupportedAttr [] = False"
| "hasUnsupportedAttr (NamedTypeConstraint v # args) = hasUnsupportedAttr args"
| "hasUnsupportedAttr (NamedAttributeArg a # args) =
     (unsupportedAttr (resolvedAttr a) \<or> hasUnsupportedAttr args)"

fun hasNonFinalVariadic :: "Argument list \<Rightarrow> bool" where
  "hasNonFinalVariadic [] = False"
| "hasNonFinalVariadic [a] = False"
| "hasNonFinalVariadic (NamedTypeConstraint v # b # args) = (v \<or> hasNonFinalVariadic (b # args))"
| "hasNonFinalVariadic (NamedAttributeArg a # b # args) = hasNonFinalVariadic (b # args)"

definition qualifying :: "Operator \<Rightarrow> bool" where
  "qualifying op = (hasOpcode op \<and> autogenSerialization op)"

definition malformed :: "Operator \<Rightarrow> bool" where
  "malformed op =
     (getNumResults op > 1 \<or> hasUnsupportedAttr (getArgs op) \<or> hasNonFinalVariadic (getArgs op))"

section \<open>Running the emitted code\<close>

text \<open>
  The function emitted for one op definition, applied to its input; \<open>None\<close> when the
  generator emits no function for the definition.
\<close>

definition encodeOp :: "Operator \<Rightarrow> Operation \<Rightarrow> Serializer \<Rightarrow> (SerError + Serializer) option" where
  "encodeOp op node s =
     (case emitSerializationFunction op of
        Inr (Some f) \<Rightarrow> Some (f node s)
      | _ \<Rightarrow> None)"

definition decodeOp :: "Operator \<Rightarrow> 32 word list \<Rightarrow> Deserializer \<Rightarrow> (DeserError + Deserializer) option" where
  "decodeOp op words d =
     (case emitDeserializationFunction op of
        Inr (Some f) \<Rightarrow> Some (f words d)
      | _ \<Rightarrow> None)"

text \<open>
  The locals of the function emitted for an op definition when its last argument block
  is done, that is, just before the check of the word count: \<open>wordIndex\<close>,
  \<open>operands\<close>, \<open>attributes\<close>, then \<open>resultTypes\<close> and \<open>valueID\<close>.
\<close>

definition slotsOf ::
  "Operator \<Rightarrow> 32 word list \<Rightarrow> Deserializer \<Rightarrow>
     (DeserError + (DeserState \<times> mlirType list \<times> 32 word)) option" where
  "slotsOf op words d =
     (case emitDeserArgs (length (getArgs op)) 0 (getArgs op) of
        Inl e \<Rightarrow> None
      | Inr blocks \<Rightarrow> Some (deserSlots op blocks words d))"

text \<open>
  A block keeps the cursor inside the word list.
\<close>

definition wordIndexOk :: "32 word list \<Rightarrow> DeserBlock \<Rightarrow> bool" where
  "wordIndexOk words b = (\<forall>d i ops as i' ops' as'. i \<le> length words \<longrightarrow> b words d (i, ops, as) = Inr (i', ops', as') \<longrightarrow> i' \<le> length words)"

text \<open>
  The op built by the deserializer carries what the serialized op carried: class, result
  type, operands in order and attributes.
\<close>

definition equivalentNode :: "Operation \<Rightarrow> CreatedOp \<Rightarrow> bool" where
  "equivalentNode node c =
     (createdClass c = opClass node \<and> resultTypes c = [opType node] \<and>
      createdOperands c = concat (odsOperands node) \<and> createdAttributes c = opAttrs node)"

text \<open>
  The shape of the spec's scenario: an op with generation on, one result, one value
  operand that is not variadic and then one attribute whose definition, behind an
  optional wrapper if there is one, is \<open>I32Attr\<close>.
\<close>

definition scenarioShape :: "Operator \<Rightarrow> NamedAttribute \<Rightarrow> bool" where
  "scenarioShape op a =
     (autogenSerialization op \<and> getNumResults op = 1 \<and>
      getArgs op = [NamedTypeConstraint False, NamedAttributeArg a] \<and>
      getAttrDefName (resolvedAttr a) = ''I32Attr'')"

subsection \<open>Op definitions and states used as concrete inputs\<close>

text \<open>
  The op of the spec's scenario: one result, one value operand that is not variadic and
  the 32-bit integer attribute \<open>value\<close>; a node of that op, and states in which the
  operand has id 7 and the result type has id 3.
\<close>

definition i32Attr :: Attribute where
  "i32Attr = \<lparr> getAttrDefName = ''I32Attr'', isEnumAttr = False \<rparr>"

definition scenarioOp :: Operator where
  "scenarioOp = \<lparr> getQualCppClassName = ''spirv::ScenarioOp'', spirvOpcode = 100,
       hasOpcode = True, autogenSerialization = True, getNumResults = 1,
       getArgs = [NamedTypeConstraint False,
                  NamedAttributeArg \<lparr> attrName = ''value'', attrIsOptional = False,
                                      attrSelf = i32Attr, attrBaseAttr = i32Attr \<rparr>] \<rparr>"

definition scenarioNode :: Operation where
  "scenarioNode = \<lparr> opClass = ''spirv::ScenarioOp'', opType = 11, opResult = OpResult 0,
       odsOperands = [[BlockArgument 0]], opAttrs = [(''value'', IntegerAttr 42)] \<rparr>"

definition scenarioSerializer :: Serializer where
  "scenarioSerializer = \<lparr> typeIDMap = [11 \<mapsto> 3], nextID = 8,
       valueIDMap = [BlockArgument 0 \<mapsto> 7],
       instructionStream = [], knownDecorations = [], decorationRecords = [], diagnostics = [] \<rparr>"

definition scenarioDeserializer :: Deserializer where
  "scenarioDeserializer = \<lparr> typeMap = [3 \<mapsto> 11], valueMap = [7 \<mapsto> BlockArgument 0],
       decorations = Map.empty, createdOps = [] \<rparr>"

definition emptySerializer :: Serializer where
  "emptySerializer = \<lparr> typeIDMap = Map.empty, nextID = 1, valueIDMap = Map.empty,
       instructionStream = [], knownDecorations = [], decorationRecords = [], diagnostics = [] \<rparr>"

definition emptyDeserializer :: Deserializer where
  "emptyDeserializer = \<lparr> typeMap = Map.empty, valueMap = Map.empty, decorations = Map.empty, createdOps = [] \<rparr>"

text \<open>
  An op without result and with one value operand, and a node of it whose operand has
  no id yet.
\<close>

definition useOp :: Operator where
  "useOp = \<lparr> getQualCppClassName = ''spirv::UseOp'', spirvOpcode = 101,
       hasOpcode = True, autogenSerialization = True, getNumResults = 0,
       getArgs = [NamedTypeConstraint False] \<rparr>"

definition useNode :: Operation where
  "useNode = \<lparr> opClass = ''spirv::UseOp'', opType = 0, opResult = OpResult 0,
       odsOperands = [[BlockArgument 5]], opAttrs = [] \<rparr>"

text \<open>
  An op that has an opcode and opts out of generation; one that opts out and has two
  results; and one with generation on whose variadic operand is not its last argument.
\<close>

definition optOutOp :: Operator where
  "optOutOp = \<lparr> getQualCppClassName = ''spirv::OptOutOp'', spirvOpcode = 102,
       hasOpcode = True, autogenSerialization = False, getNumResults = 0,
       getArgs = [] \<rparr>"

definition twoResultOptOutOp :: Operator where
  "twoResultOptOutOp = \<lparr> getQualCppClassName = ''spirv::TwoResultOp'', spirvOpcode = 103,
       hasOpcode = True, autogenSerialization = False, getNumResults = 2,
       getArgs = [] \<rparr>"

definition variadicFirstOp :: Operator where
  "variadicFirstOp = \<lparr> getQualCppClassName = ''spirv::VariadicFirstOp'', spirvOpcode = 104,
       hasOpcode = True, autogenSerialization = True, getNumResults = 0,
       getArgs = [NamedTypeConstraint True, NamedTypeConstraint False] \<rparr>"

text \<open>
  An opcode enum with the opcodes of the scenario op and of the op that opted out, and
  with \<open>OpNop\<close>, for which there is no op definition.
\<close>

definition opcodeEnum :: "enumerant list" where
  "opcodeEnum = [(''OpNop'', 0), (''OpScenario'', 100), (''OpOptOut'', 102)]"

section \<open>Properties of bit enums\<close>

text \<open>
  The union of the case values of a list of cases, and of all declared cases of an
  enum.
\<close>

fun unionOfCases :: "enumerant list \<Rightarrow> 32 word" where
  "unionOfCases [] = 0"
| "unionOfCases ((symb, v) # es) = v OR unionOfCases es"

definition caseUnion :: "EnumAttr \<Rightarrow> 32 word" where
  "caseUnion e = unionOfCases (getAllCases e)"

text \<open>
  A bit enum as the string functions expect it: the separator is not empty, the zero
  case \<open>None\<close> is declared, the symbols are pairwise distinct and contain no character
  of the separator, and each case value other than 0 is a single bit.
\<close>

definition singleBit :: "32 word \<Rightarrow> bool" where
  "singleBit x = list_ex (\<lambda>k. x = 2 ^ k) [0..<32]"

definition wellFormedBitEnum :: "EnumAttr \<Rightarrow> bool" where
  "wellFormedBitEnum e =
     (separator e \<noteq> [] \<and>
      (''None'', 0) \<in> set (getAllCases e) \<and>
      distinct (map fst (getAllCases e)) \<and>
      list_all (\<lambda>c. set (fst c) \<inter> set (separator e) = {}) (getAllCases e) \<and>
      list_all (\<lambda>c. snd c = 0 \<or> singleBit (snd c)) (getAllCases e))"

text \<open>
  A bit enum with a case that is a mask of two bits, declared before the cases of the
  bits.
\<close>

definition maskEnum :: EnumAttr where
  "maskEnum = \<lparr> getEnumClassName = ''Access'',
       getAllCases = [(''None'', 0), (''ReadWrite'', 3), (''Read'', 1), (''Write'', 2)],
       separator = ''|'' \<rparr>"

text \<open>The bit enum of the spec's scenario with the empty string as its separator.\<close>

definition emptySeparatorEnum :: EnumAttr where
  "emptySeparatorEnum = \<lparr> getEnumClassName = ''Access'',
       getAllCases = [(''None'', 0), (''Read'', 1), (''Write'', 2), (''Execute'', 4)],
       separator = [] \<rparr>"

text \<open>No case with a value other than 0 has the empty string as its symbol.\<close>

definition symbolsNonEmpty :: "EnumAttr \<Rightarrow> bool" where
  "symbolsNonEmpty e = list_all (\<lambda>c. snd c = 0 \<or> fst c \<noteq> []) (getAllCases e)"

section \<open>The scenario op: encoding and decoding\<close>

lemma scenario_ser_blocks:
  "emitSerializationFunction scenarioOp =
     Inr (Some (serFunction scenarioOp [serOperandBlock 0, serAttrBlock (serIntegerAttr ''value'') ''value'']))"
  by (simp add: emitSerializationFunction_def scenarioOp_def emitAttributeSerialization_def i32Attr_def)

lemma scenario_deser_blocks:
  "emitDeserializationFunction scenarioOp =
     Inr (Some (deserFunction scenarioOp [deserOperand, deserAttrBlock (deserIntegerAttr ''value'')]))"
  by (simp add: emitDeserializationFunction_def scenarioOp_def emitAttributeDeserialization_def i32Attr_def)

lemma shape_ser_blocks:
  assumes "scenarioShape op a"
  shows "emitSerializationFunction op =
     Inr (Some (serFunction op [serOperandBlock 0, serAttrBlock (serIntegerAttr (attrName a)) (attrName a)]))"
proof -
  from assms have k: "getAttrDefName (if attrIsOptional a then attrBaseAttr a else attrSelf a) = ''I32Attr''"
    by (simp add: scenarioShape_def resolvedAttr_def)
  have "emitAttributeSerialization (if attrIsOptional a then attrBaseAttr a else attrSelf a) (attrName a)
      = Inr (serIntegerAttr (attrName a))"
    unfolding emitAttributeSerialization_def k by simp
  with assms show ?thesis
    by (simp add: emitSerializationFunction_def scenarioShape_def)
qed

lemma shape_deser_blocks:
  assumes "scenarioShape op a"
  shows "emitDeserializationFunction op =
     Inr (Some (deserFunction op [deserOperand, deserAttrBlock (deserIntegerAttr (attrName a))]))"
proof -
  from assms have k: "getAttrDefName (if attrIsOptional a then attrBaseAttr a else attrSelf a) = ''I32Attr''"
    by (simp add: scenarioShape_def resolvedAttr_def)
  have "emitAttributeDeserialization (if attrIsOptional a then attrBaseAttr a else attrSelf a) (attrName a)
      = Inr (deserIntegerAttr (attrName a))"
    unfolding emitAttributeDeserialization_def k by simp
  with assms show ?thesis
    by (simp add: emitDeserializationFunction_def scenarioShape_def)
qed

lemma shape_encode:
  assumes "getNumResults op = 1"
      and "typeIDMap s (opType node) = Some 3"
      and "valueIDMap s v = Some 7"
      and "opResult node \<noteq> v"
      and "odsOperands node = [[v]]"
      and "opAttrs node = [(n, IntegerAttr 42)]"
  shows "serFunction op [serOperandBlock 0, serAttrBlock (serIntegerAttr n) n] node s
       = Inr (s\<lparr>nextID := nextID s + 1, valueIDMap := (valueIDMap s)(opResult node \<mapsto> nextID s),
                instructionStream := instructionStream s @ [(spirvOpcode op, [3, nextID s, 7, 42])]\<rparr>)"
  using assms
  by (simp add: serFunction_def serResult_def processType_def getNextID_def
      serOperandBlock_def getODSOperands_def findValueID_def serAttrBlock_def serIntegerAttr_def
      getAttr_def encodeInstructionInto_def Let_def)

lemma shape_decode:
  assumes "getNumResults op = 1"
      and "typeMap d 3 = Some ty"
      and "valueMap d 7 = Some v"
      and "decorations d i = None"
  shows "deserFunction op [deserOperand, deserAttrBlock (deserIntegerAttr n)] [3, i, 7, 42] d
       = Inr (d\<lparr>createdOps := createdOps d @ [\<lparr> createdClass = getQualCppClassName op, resultTypes = [ty],
                    createdOperands = [v], createdAttributes = [(n, IntegerAttr 42)] \<rparr>],
                 valueMap := (valueMap d)(i \<mapsto> OpResult (length (createdOps d)))\<rparr>)"
  using assms
  by (simp add: deserFunction_def deserSlots_def deserFinish_def deserResult_def
      getType_def getValue_def deserOperand_def deserAttrBlock_def deserIntegerAttr_def
      getI32IntegerAttr_def create_def)

text \<open>
  Claim C1. For every op definition with one result, one value operand that is not
  variadic and one scalar integer attribute: encoding a node whose operand has id 7,
  whose attribute is 42 and whose result type has id 3 appends the instruction with the
  words 3, the fresh result id, 7, 42; decoding these four words, with lookups that
  resolve 3 and 7 and no decoration stored for the result id, builds a node with the
  same class, result type, operand and attribute.
\<close>

theorem scenario_round_trip:
  assumes "scenarioShape op a"
      and "opClass node = getQualCppClassName op"
      and "odsOperands node = [[v]]"
      and "opAttrs node = [(attrName a, IntegerAttr 42)]"
      and "opResult node \<noteq> v"
      and "typeIDMap s (opType node) = Some 3"
      and "valueIDMap s v = Some 7"
      and "typeMap d 3 = Some (opType node)"
      and "valueMap d 7 = Some v"
      and "decorations d (nextID s) = None"
  shows "\<exists>s' d' c.
           encodeOp op node s = Some (Inr s') \<and>
           instructionStream s' = instructionStream s @ [(spirvOpcode op, [3, nextID s, 7, 42])] \<and>
           decodeOp op [3, nextID s, 7, 42] d = Some (Inr d') \<and>
           createdOps d' = createdOps d @ [c] \<and> equivalentNode node c"
proof -
  from assms(1) have one: "getNumResults op = 1" by (simp add: scenarioShape_def)
  let ?c = "\<lparr> createdClass = getQualCppClassName op, resultTypes = [opType node],
              createdOperands = [v], createdAttributes = [(attrName a, IntegerAttr 42)] \<rparr>"
  have enc: "encodeOp op node s =
      Some (Inr (s\<lparr>nextID := nextID s + 1, valueIDMap := (valueIDMap s)(opResult node \<mapsto> nextID s),
                  instructionStream := instructionStream s @ [(spirvOpcode op, [3, nextID s, 7, 42])]\<rparr>))"
    unfolding encodeOp_def shape_ser_blocks[OF assms(1)]
    using shape_encode[OF one assms(6,7,5,3,4)] by simp
  have dec: "decodeOp op [3, nextID s, 7, 42] d =
      Some (Inr (d\<lparr>createdOps := createdOps d @ [?c],
                 valueMap := (valueMap d)(nextID s \<mapsto> OpResult (length (createdOps d)))\<rparr>))"
    unfolding decodeOp_def shape_deser_blocks[OF assms(1)]
    using shape_decode[OF one assms(8,9,10)] by simp
  have eq: "equivalentNode node ?c"
    using assms(2,3,4) by (simp add: equivalentNode_def)
  show ?thesis
    unfolding enc dec using eq by simp
qed

theorem scenario_round_trip_witness:
  "\<exists>s' d' c.
     encodeOp scenarioOp scenarioNode scenarioSerializer = Some (Inr s') \<and>
     instructionStream s' = [(100, [3, 8, 7, 42])] \<and>
     decodeOp scenarioOp [3, 8, 7, 42] scenarioDeserializer = Some (Inr d') \<and>
     createdOps d' = [c] \<and> equivalentNode scenarioNode c"
proof -
  let ?a = "\<lparr> attrName = ''value'', attrIsOptional = False, attrSelf = i32Attr, attrBaseAttr = i32Attr \<rparr>"
  have shape: "scenarioShape scenarioOp ?a"
    by (simp add: scenarioShape_def scenarioOp_def resolvedAttr_def i32Attr_def)
  from scenario_round_trip[OF shape, of scenarioNode "BlockArgument 0" scenarioSerializer scenarioDeserializer]
  show ?thesis
    by (simp add: scenarioNode_def scenarioSerializer_def scenarioDeserializer_def scenarioOp_def)
qed

section \<open>Exact consumption of the word list\<close>

lemma deserArrayLoop_le:
  "i \<le> length words \<Longrightarrow> fst (deserArrayLoop words i acc) \<le> length words"
proof (induction words i acc rule: deserArrayLoop.induct)
  case (1 words wordIndex attrListElems)
  show ?case
  proof (cases "wordIndex < length words")
    case True
    with 1 show ?thesis by (subst deserArrayLoop.simps) simp
  next
    case False
    with 1 show ?thesis by (subst deserArrayLoop.simps) simp
  qed
qed

lemma deserVariadicLoop_le:
  "i \<le> length words \<Longrightarrow> deserVariadicLoop words d i ops = Inr (i', ops') \<Longrightarrow> i' \<le> length words"
proof (induction words d i ops rule: deserVariadicLoop.induct)
  case (1 words d wordIndex operands)
  show ?case
  proof (cases "wordIndex < length words")
    case True
    with "1.prems" obtain arg where a: "getValue d (words ! wordIndex) = Some arg"
      and r: "deserVariadicLoop words d (Suc wordIndex) (operands @ [arg]) = Inr (i', ops')"
      by (subst (asm) deserVariadicLoop.simps) (auto split: option.splits)
    from True have "Suc wordIndex \<le> length words" by simp
    from "1.IH"[OF True a this r] show ?thesis .
  next
    case False
    with "1.prems" show ?thesis by (subst (asm) deserVariadicLoop.simps) simp
  qed
qed

lemma ok_operand: "wordIndexOk words deserOperand"
  by (auto simp: wordIndexOk_def deserOperand_def split: if_splits option.splits)

lemma ok_variadic: "wordIndexOk words deserVariadic"
  by (auto simp: wordIndexOk_def deserVariadic_def split: sum.splits dest: deserVariadicLoop_le)

lemma ok_int: "wordIndexOk words (deserAttrBlock (deserIntegerAttr n))"
  by (auto simp: wordIndexOk_def deserAttrBlock_def deserIntegerAttr_def split: if_splits)

lemma ok_array: "wordIndexOk words (deserAttrBlock (deserArrayAttr n))"
proof -
  have "i' \<le> length words" if "i \<le> length words" and "deserArrayLoop words i acc = (i', acc')" for i acc i' acc'
    using deserArrayLoop_le[OF that(1), of acc] that(2) by simp
  then show ?thesis
    by (auto simp: wordIndexOk_def deserAttrBlock_def deserArrayAttr_def split: if_splits prod.splits)
qed

lemma ok_attr:
  assumes "emitAttributeDeserialization a n = Inr body"
  shows "wordIndexOk words (deserAttrBlock body)"
proof (cases "getAttrDefName a = ''I32ArrayAttr''")
  case True
  with assms have "body = deserArrayAttr n"
    by (simp add: emitAttributeDeserialization_def)
  then show ?thesis by (simp only: ok_array)
next
  case False
  with assms have "body = deserIntegerAttr n"
    by (simp add: emitAttributeDeserialization_def split: if_splits)
  then show ?thesis by (simp only: ok_int)
qed

lemma ok_args:
  "emitDeserArgs e i args = Inr blocks \<Longrightarrow> list_all (wordIndexOk words) blocks"
proof (induction args arbitrary: i blocks)
  case Nil
  then show ?case by simp
next
  case (Cons arg args)
  show ?case
  proof (cases arg)
    case (NamedTypeConstraint variadic)
    with Cons.prems obtain bs where
      bs: "emitDeserArgs e (Suc i) args = Inr bs"
      and blocks: "blocks = (if variadic then deserVariadic else deserOperand) # bs"
      by (auto split: if_splits sum.splits)
    from Cons.IH[OF bs] blocks show ?thesis
      by (simp add: ok_operand ok_variadic)
  next
    case (NamedAttributeArg a)
    with Cons.prems obtain body bs where
      body: "emitAttributeDeserialization (if attrIsOptional a then attrBaseAttr a else attrSelf a) (attrName a) = Inr body"
      and bs: "emitDeserArgs e (Suc i) args = Inr bs"
      and blocks: "blocks = deserAttrBlock body # bs"
      by (auto split: sum.splits)
    from Cons.IH[OF bs] blocks ok_attr[OF body] show ?thesis
      by simp
  qed
qed

lemma run_ok:
  "list_all (wordIndexOk words) blocks \<Longrightarrow> i \<le> length words \<Longrightarrow>
   runDeserBlocks blocks words d (i, ops, as) = Inr (i', ops', as') \<Longrightarrow> i' \<le> length words"
proof (induction blocks arbitrary: i ops as)
  case Nil
  then show ?case by simp
next
  case (Cons b bs)
  from Cons.prems(3) obtain st1 where b: "b words d (i, ops, as) = Inr st1"
    and r: "runDeserBlocks bs words d st1 = Inr (i', ops', as')"
    by (auto split: sum.splits)
  obtain i1 ops1 as1 where st1: "st1 = (i1, ops1, as1)" by (cases st1)
  from Cons.prems(1) have "wordIndexOk words b" by simp
  with b st1 Cons.prems(2) have "i1 \<le> length words"
    unfolding wordIndexOk_def by blast
  with Cons.IH[of i1 ops1 as1] Cons.prems(1) r st1 show ?case by simp
qed

lemma slots_le:
  assumes "emitDeserArgs (length (getArgs op)) 0 (getArgs op) = Inr blocks"
      and "deserSlots op blocks words d = Inr ((i, ops, as), tys, valueID)"
  shows "i \<le> length words"
proof -
  have ok: "list_all (wordIndexOk words) blocks" using assms(1) by (rule ok_args)
  have "\<exists>i0. i0 \<le> length words \<and> runDeserBlocks blocks words d (i0, [], []) = Inr (i, ops, as)"
  proof (cases "getNumResults op = 1")
    case True
    with assms(2) have "2 \<le> length words \<and> runDeserBlocks blocks words d (2, [], []) = Inr (i, ops, as)"
      by (auto simp: deserSlots_def deserResult_def split: if_splits sum.splits option.splits)
    then show ?thesis by blast
  next
    case False
    with assms(2) have "runDeserBlocks blocks words d (0, [], []) = Inr (i, ops, as)"
      by (auto simp: deserSlots_def split: sum.splits)
    then show ?thesis by auto
  qed
  then obtain i0 where i0: "i0 \<le> length words"
    and r: "runDeserBlocks blocks words d (i0, [], []) = Inr (i, ops, as)" by blast
  from run_ok[OF ok i0 r] show ?thesis .
qed

text \<open>
  Claim C2, as the code has it. For every op definition with an emitted decode
  function: when the cursor after the last argument block differs from the number of
  words, words are left over and the function fails with \<open>TrailingData\<close>, reporting the
  cursor and the number of words; a successful decode has its cursor at the end. For an
  op with one result the function fails with \<open>TruncatedStream\<close> on the empty word
  list, and on a single word that resolves to a type (the result id is missing).
\<close>

theorem decode_exact_consumption:
  assumes gen: "emitDeserializationFunction op = Inr (Some dec)"
  shows "(\<forall>i ops as tys valueID.
            slotsOf op words d = Some (Inr ((i, ops, as), tys, valueID)) \<longrightarrow> i \<noteq> length words \<longrightarrow>
              i < length words \<and>
              dec words d = Inl (TrailingData (getQualCppClassName op) i (length words)))
       \<and> (\<forall>d'. dec words d = Inr d' \<longrightarrow>
            (\<exists>ops as tys valueID. slotsOf op words d = Some (Inr ((length words, ops, as), tys, valueID))))
       \<and> (getNumResults op = 1 \<longrightarrow>
            dec [] d = Inl (TruncatedStream MissingResultType (getQualCppClassName op)))
       \<and> (getNumResults op = 1 \<longrightarrow> getType d w = Some ty \<longrightarrow>
            dec [w] d = Inl (TruncatedStream MissingResultId (getQualCppClassName op)))"
proof -
  from gen obtain blocks where
    blocks: "emitDeserArgs (length (getArgs op)) 0 (getArgs op) = Inr blocks"
    and dec: "dec = deserFunction op blocks"
    by (auto simp: emitDeserializationFunction_def split: if_splits sum.splits)
  have slots: "slotsOf op words d = Some (deserSlots op blocks words d)"
    by (simp add: slotsOf_def blocks)
  have a: "i < length words \<and> dec words d = Inl (TrailingData (getQualCppClassName op) i (length words))"
    if "slotsOf op words d = Some (Inr ((i, ops, as), tys, valueID))" and "i \<noteq> length words"
    for i ops as tys valueID
  proof -
    from that(1) slots have s: "deserSlots op blocks words d = Inr ((i, ops, as), tys, valueID)" by simp
    from slots_le[OF blocks s] that(2) have "i < length words" by simp
    moreover from s that(2) have "dec words d = Inl (TrailingData (getQualCppClassName op) i (length words))"
      by (simp add: dec deserFunction_def deserFinish_def)
    ultimately show ?thesis by simp
  qed
  have b: "\<exists>ops as tys valueID. slotsOf op words d = Some (Inr ((length words, ops, as), tys, valueID))"
    if "dec words d = Inr d'" for d'
  proof -
    from that obtain i ops as tys valueID where
      s: "deserSlots op blocks words d = Inr ((i, ops, as), tys, valueID)"
      and f: "deserFinish op words d ((i, ops, as), tys, valueID) = Inr d'"
      by (auto simp: dec deserFunction_def split: sum.splits)
    from f have "i = length words"
      by (auto simp: deserFinish_def split: if_splits)
    with s slots show ?thesis by auto
  qed
  have c: "dec [] d = Inl (TruncatedStream MissingResultType (getQualCppClassName op))"
    if "getNumResults op = 1"
    using that by (simp add: dec deserFunction_def deserSlots_def deserResult_def)
  have e: "dec [w] d = Inl (TruncatedStream MissingResultId (getQualCppClassName op))"
    if "getNumResults op = 1" and "getType d w = Some ty"
    using that by (simp add: dec deserFunction_def deserSlots_def deserResult_def)
  show ?thesis
  proof (intro conjI allI impI)
    fix i ops as tys valueID
    assume s: "slotsOf op words d = Some (Inr ((i, ops, as), tys, valueID))" and n: "i \<noteq> length words"
    from a[OF s n] show "i < length words" by simp
  next
    fix i ops as tys valueID
    assume s: "slotsOf op words d = Some (Inr ((i, ops, as), tys, valueID))" and n: "i \<noteq> length words"
    from a[OF s n] show "dec words d = Inl (TrailingData (getQualCppClassName op) i (length words))" by simp
  next
    fix d' assume "dec words d = Inr d'"
    then show "\<exists>ops as tys valueID. slotsOf op words d = Some (Inr ((length words, ops, as), tys, valueID))"
      by (rule b)
  next
    assume "getNumResults op = 1"
    then show "dec [] d = Inl (TruncatedStream MissingResultType (getQualCppClassName op))" by (rule c)
  next
    assume "getNumResults op = 1" and "getType d w = Some ty"
    then show "dec [w] d = Inl (TruncatedStream MissingResultId (getQualCppClassName op))" by (rule e)
  qed
qed

theorem decode_exact_consumption_witness:
  "decodeOp scenarioOp [3, 8, 7, 42, 99] scenarioDeserializer
     = Some (Inl (TrailingData ''spirv::ScenarioOp'' 4 5))
   \<and> decodeOp scenarioOp [] scenarioDeserializer
     = Some (Inl (TruncatedStream MissingResultType ''spirv::ScenarioOp''))
   \<and> decodeOp scenarioOp [3] scenarioDeserializer
     = Some (Inl (TruncatedStream MissingResultId ''spirv::ScenarioOp''))"
proof -
  let ?dec = "deserFunction scenarioOp [deserOperand, deserAttrBlock (deserIntegerAttr ''value'')]"
  note exact = decode_exact_consumption[OF scenario_deser_blocks]
  have slots: "slotsOf scenarioOp [3, 8, 7, 42, 99] scenarioDeserializer
      = Some (Inr ((4, [BlockArgument 0], [(''value'', IntegerAttr 42)]), [11], 8))"
    by (simp add: slotsOf_def scenarioOp_def emitAttributeDeserialization_def i32Attr_def
        deserSlots_def deserResult_def getType_def getValue_def scenarioDeserializer_def
        deserOperand_def deserAttrBlock_def deserIntegerAttr_def getI32IntegerAttr_def)
  from exact[of "[3, 8, 7, 42, 99]" scenarioDeserializer] slots
  have a: "?dec [3, 8, 7, 42, 99] scenarioDeserializer = Inl (TrailingData ''spirv::ScenarioOp'' 4 5)"
    by (simp add: scenarioOp_def)
  from exact[of _ scenarioDeserializer]
  have b: "?dec [] scenarioDeserializer = Inl (TruncatedStream MissingResultType ''spirv::ScenarioOp'')"
    by (simp add: scenarioOp_def)
  have "getType scenarioDeserializer 3 = Some 11"
    by (simp add: getType_def scenarioDeserializer_def)
  with exact[of _ scenarioDeserializer 3 11]
  have c: "?dec [3] scenarioDeserializer = Inl (TruncatedStream MissingResultId ''spirv::ScenarioOp'')"
    by (simp add: scenarioOp_def)
  show ?thesis
    unfolding decodeOp_def scenario_deser_blocks using a b c by simp
qed

text \<open>
  A single word that resolves to no type is reported as an unknown type, not as a
  truncated stream: the type is looked up before the result id is asked for.
\<close>

theorem decode_missing_result_id_counterexample:
  "decodeOp scenarioOp [9] emptyDeserializer = Some (Inl (UnknownType 9))"
  unfolding decodeOp_def scenario_deser_blocks
  by (simp add: deserFunction_def deserSlots_def deserResult_def getType_def
      emptyDeserializer_def scenarioOp_def)

section \<open>Use before def\<close>

text \<open>
  Claim C3 on the code. The emitted loop raises the diagnostic for an operand without
  id but does not return it: the id 0 is pushed, the instruction is encoded and the
  function returns success.
\<close>

theorem use_before_def_returns_success:
  "encodeOp useOp useNode emptySerializer =
     Some (Inr (emptySerializer\<lparr> instructionStream := [(101, [0])],
                                 diagnostics := [UseBeforeDef 0] \<rparr>))"
  by (simp add: encodeOp_def emitSerializationFunction_def useOp_def useNode_def
      serFunction_def serOperandBlock_def getODSOperands_def findValueID_def emitError_def
      encodeInstructionInto_def emptySerializer_def Let_def)

section \<open>The dispatch tables\<close>

lemma emitted_ser_names:
  "emitSerializationFunction def = Inr ser \<Longrightarrow>
   map fst (emitted cls ser) = (if autogenSerialization def then [cls] else [])"
  by (auto simp: emitSerializationFunction_def emitted_def split: if_splits sum.splits)

lemma emitted_deser_names:
  "emitDeserializationFunction def = Inr deser \<Longrightarrow>
   map fst (emitted cls deser) = (if autogenSerialization def then [cls] else [])"
  by (auto simp: emitDeserializationFunction_def emitted_def split: if_splits sum.splits)

lemma emitLoop_tables:
  "emitLoop defs g0 = Inr g \<Longrightarrow>
   dSerFn g = dSerFn g0 @ map getQualCppClassName (filter hasOpcode defs) \<and>
   dDesFn g = dDesFn g0 @ map (\<lambda>def. (spirvOpcode def, getQualCppClassName def)) (filter hasOpcode defs) \<and>
   map fst (serFn g) = map fst (serFn g0) @ map getQualCppClassName (filter qualifying defs) \<and>
   map fst (deserFn g) = map fst (deserFn g0) @ map getQualCppClassName (filter qualifying defs)"
proof (induction defs arbitrary: g0)
  case Nil
  then show ?case by simp
next
  case (Cons def defs)
  show ?case
  proof (cases "hasOpcode def")
    case False
    with Cons.prems have "emitLoop defs g0 = Inr g" by simp
    from Cons.IH[OF this] False show ?thesis by (simp add: qualifying_def)
  next
    case True
    with Cons.prems obtain ser deser where
      ser: "emitSerializationFunction def = Inr ser"
      and deser: "emitDeserializationFunction def = Inr deser"
      and rest: "emitLoop defs
           \<lparr> utils = utils g0 @ [(getQualCppClassName def, spirvOpcode def)],
             serFn = serFn g0 @ emitted (getQualCppClassName def) ser,
             dSerFn = dSerFn g0 @ [getQualCppClassName def],
             deserFn = deserFn g0 @ emitted (getQualCppClassName def) deser,
             dDesFn = dDesFn g0 @ [(spirvOpcode def, getQualCppClassName def)] \<rparr> = Inr g"
      by (auto split: sum.splits)
    from Cons.IH[OF rest] True emitted_ser_names[OF ser] emitted_deser_names[OF deser]
    show ?thesis by (simp add: qualifying_def)
  qed
qed

lemma gen_scenario_optOut:
  "emitLoop [scenarioOp, optOutOp] emptyCode = Inr
     \<lparr> utils = [(''spirv::ScenarioOp'', 100), (''spirv::OptOutOp'', 102)],
       serFn = [(''spirv::ScenarioOp'', serFunction scenarioOp [serOperandBlock 0, serAttrBlock (serIntegerAttr ''value'') ''value''])],
       dSerFn = [''spirv::ScenarioOp'', ''spirv::OptOutOp''],
       deserFn = [(''spirv::ScenarioOp'', deserFunction scenarioOp [deserOperand, deserAttrBlock (deserIntegerAttr ''value'')])],
       dDesFn = [(100, ''spirv::ScenarioOp''), (102, ''spirv::OptOutOp'')] \<rparr>"
proof -
  have a: "hasOpcode scenarioOp" "getQualCppClassName scenarioOp = ''spirv::ScenarioOp''"
      "spirvOpcode scenarioOp = 100"
    by (simp_all add: scenarioOp_def)
  have b: "hasOpcode optOutOp" "getQualCppClassName optOutOp = ''spirv::OptOutOp''"
      "spirvOpcode optOutOp = 102" "emitSerializationFunction optOutOp = Inr None"
      "emitDeserializationFunction optOutOp = Inr None"
    by (simp_all add: optOutOp_def emitSerializationFunction_def emitDeserializationFunction_def)
  show ?thesis
    by (simp add: a b scenario_ser_blocks scenario_deser_blocks emptyCode_def emitted_def)
qed

text \<open>
  Claim C4, as the code has it. Both dispatch functions have one entry for each
  definition with \<open>hasOpcode\<close> set, in declaration order, whether or not
  \<open>autogenSerialization\<close> is set; the \<open>processOp\<close> functions are emitted for the
  definitions with both set.
\<close>

theorem dispatch_tables:
  assumes "emitSerializationFns defs = Inr g"
  shows "dSerFn g = map getQualCppClassName (filter hasOpcode defs)
       \<and> dDesFn g = map (\<lambda>def. (spirvOpcode def, getQualCppClassName def)) (filter hasOpcode defs)
       \<and> map fst (serFn g) = map getQualCppClassName (filter qualifying defs)
       \<and> map fst (deserFn g) = map getQualCppClassName (filter qualifying defs)"
  using emitLoop_tables[of defs emptyCode g] assms
  by (simp add: emitSerializationFns_def emptyCode_def)

theorem dispatch_tables_witness:
  "routers [scenarioOp, optOutOp] =
     Some ([''spirv::ScenarioOp'', ''spirv::OptOutOp''],
           [(100, ''spirv::ScenarioOp''), (102, ''spirv::OptOutOp'')])
   \<and> generatedFunctions [scenarioOp, optOutOp] = Some ([''spirv::ScenarioOp''], [''spirv::ScenarioOp''])"
proof -
  have g: "emitSerializationFns [scenarioOp, optOutOp] = Inr
     \<lparr> utils = [(''spirv::ScenarioOp'', 100), (''spirv::OptOutOp'', 102)],
       serFn = [(''spirv::ScenarioOp'', serFunction scenarioOp [serOperandBlock 0, serAttrBlock (serIntegerAttr ''value'') ''value''])],
       dSerFn = [''spirv::ScenarioOp'', ''spirv::OptOutOp''],
       deserFn = [(''spirv::ScenarioOp'', deserFunction scenarioOp [deserOperand, deserAttrBlock (deserIntegerAttr ''value'')])],
       dDesFn = [(100, ''spirv::ScenarioOp''), (102, ''spirv::OptOutOp'')] \<rparr>"
    unfolding emitSerializationFns_def by (rule gen_scenario_optOut)
  from dispatch_tables[OF g] show ?thesis
    by (simp add: routers_def generatedFunctions_def g)
qed

text \<open>
  An op with \<open>hasOpcode\<close> set and \<open>autogenSerialization\<close> unset is in both
  tables.
\<close>

theorem optOut_in_routers_counterexample:
  "\<not> qualifying optOutOp \<and>
   routers [optOutOp] = Some ([''spirv::OptOutOp''], [(102, ''spirv::OptOutOp'')])"
  by (simp add: routers_def emitSerializationFns_def emptyCode_def optOutOp_def qualifying_def
      emitSerializationFunction_def emitDeserializationFunction_def emitted_def)

text \<open>
  Claim C5, as the code has it. For an opcode that no definition with \<open>hasOpcode\<close>
  set has, the decode dispatch fails with \<open>UnhandledOpcode\<close>; the error carries the
  string that \<open>spirv::stringifyOpcode\<close> gives for the opcode, not the number. It
  builds no node.
\<close>

theorem unhandled_opcode:
  assumes "emitSerializationFns defs = Inr g"
      and "opcode \<notin> set (map spirvOpcode (filter hasOpcode defs))"
  shows "dispatchToAutogenDeserialization g handwritten stringify opcode words d
           = Inl (UnhandledOpcode (stringify opcode))"
proof -
  from emitLoop_tables[of defs emptyCode g] assms(1)
  have "dDesFn g = map (\<lambda>def. (spirvOpcode def, getQualCppClassName def)) (filter hasOpcode defs)"
    by (simp add: emitSerializationFns_def emptyCode_def)
  then have "map fst (dDesFn g) = map spirvOpcode (filter hasOpcode defs)"
    by (simp add: comp_def)
  with assms(2) have "opcode \<notin> fst ` set (dDesFn g)"
    by (metis set_map)
  then have "map_of (dDesFn g) opcode = None"
    by (simp add: map_of_eq_None_iff)
  then show ?thesis
    by (simp add: dispatchToAutogenDeserialization_def)
qed

theorem unhandled_opcode_witness:
  "decodeWith [scenarioOp, optOutOp] (\<lambda>cls words d. Inr d) (stringifyOpcode opcodeEnum) 0 [1, 2]
     emptyDeserializer
     = Some (Inl (UnhandledOpcode ''OpNop''))"
proof -
  have g: "emitSerializationFns [scenarioOp, optOutOp] = Inr
     \<lparr> utils = [(''spirv::ScenarioOp'', 100), (''spirv::OptOutOp'', 102)],
       serFn = [(''spirv::ScenarioOp'', serFunction scenarioOp [serOperandBlock 0, serAttrBlock (serIntegerAttr ''value'') ''value''])],
       dSerFn = [''spirv::ScenarioOp'', ''spirv::OptOutOp''],
       deserFn = [(''spirv::ScenarioOp'', deserFunction scenarioOp [deserOperand, deserAttrBlock (deserIntegerAttr ''value'')])],
       dDesFn = [(100, ''spirv::ScenarioOp''), (102, ''spirv::OptOutOp'')] \<rparr>"
    unfolding emitSerializationFns_def by (rule gen_scenario_optOut)
  have "(0::32 word) \<notin> set (map spirvOpcode (filter hasOpcode [scenarioOp, optOutOp]))"
    by (simp add: scenarioOp_def optOutOp_def)
  from unhandled_opcode[OF g this, of "\<lambda>cls words d. Inr d" "stringifyOpcode opcodeEnum" "[1, 2]"
      emptyDeserializer]
  show ?thesis
    by (simp add: decodeWith_def g opcodeEnum_def)
qed

text \<open>
  The opcode of an op that opted out of generation is dispatched to the \<open>processOp\<close>
  written by hand for it. And the error for an opcode without entry carries the name of
  the opcode, \<open>OpNop\<close> for the opcode 0, and the empty string for the number 7, which
  is not a value of the enum: the number itself is not in the error.
\<close>

theorem unhandled_opcode_counterexample:
  "\<not> qualifying optOutOp
   \<and> decodeWith [optOutOp] (\<lambda>cls words d. Inr d) (stringifyOpcode opcodeEnum)
         (spirvOpcode optOutOp) [] emptyDeserializer
       = Some (Inr emptyDeserializer)
   \<and> decodeWith [optOutOp] (\<lambda>cls words d. Inr d) (stringifyOpcode opcodeEnum)
         0 [] emptyDeserializer
       = Some (Inl (UnhandledOpcode ''OpNop''))
   \<and> decodeWith [optOutOp] (\<lambda>cls words d. Inr d) (stringifyOpcode opcodeEnum)
         7 [] emptyDeserializer
       = Some (Inl (UnhandledOpcode []))"
  by (simp add: decodeWith_def emitSerializationFns_def emptyCode_def optOutOp_def qualifying_def
      emitSerializationFunction_def emitDeserializationFunction_def emitted_def
      dispatchToAutogenDeserialization_def deserProcessOp_def opcodeEnum_def)

section \<open>Fatal errors of the generator\<close>

lemma emitSerArgs_unsupported:
  "hasUnsupportedAttr args \<Longrightarrow> \<exists>e. emitSerArgs n args = Inl e"
proof (induction args arbitrary: n rule: hasUnsupportedAttr.induct)
  case 1
  then show ?case by simp
next
  case (2 v args)
  then have "\<exists>e. emitSerArgs (Suc n) args = Inl e" by simp
  then show ?case by auto
next
  case (3 a args)
  show ?case
  proof (cases "unsupportedAttr (resolvedAttr a)")
    case True
    then show ?thesis
      by (simp add: unsupportedAttr_def resolvedAttr_def emitAttributeSerialization_def)
  next
    case False
    with 3 have "\<exists>e. emitSerArgs n args = Inl e" by simp
    then show ?thesis by (auto split: sum.splits)
  qed
qed

lemma emitDeserArgs_nonfinal:
  "hasNonFinalVariadic args \<Longrightarrow> e = i + length args \<Longrightarrow> \<exists>err. emitDeserArgs e i args = Inl err"
proof (induction args arbitrary: i rule: hasNonFinalVariadic.induct)
  case 1
  then show ?case by simp
next
  case (2 a)
  then show ?case by simp
next
  case (3 v b args)
  show ?case
  proof (cases v)
    case True
    with "3.prems"(2) show ?thesis by simp
  next
    case False
    with 3 have "\<exists>err. emitDeserArgs e (Suc i) (b # args) = Inl err" by simp
    with False show ?thesis by (auto split: sum.splits)
  qed
next
  case (4 a b args)
  then have "\<exists>err. emitDeserArgs e (Suc i) (b # args) = Inl err" by simp
  then show ?case by (auto split: sum.splits)
qed

lemma malformed_fatal:
  assumes "autogenSerialization def" and "malformed def"
  shows "(\<exists>e. emitSerializationFunction def = Inl e) \<or> (\<exists>e. emitDeserializationFunction def = Inl e)"
proof (cases "getNumResults def > 1")
  case True
  with assms(1) show ?thesis by (simp add: emitSerializationFunction_def)
next
  case False
  show ?thesis
  proof (cases "hasUnsupportedAttr (getArgs def)")
    case True
    from emitSerArgs_unsupported[OF True, of 0] assms(1) show ?thesis
      by (auto simp: emitSerializationFunction_def)
  next
    case unsup: False
    with False assms(2) have "hasNonFinalVariadic (getArgs def)"
      by (simp add: malformed_def)
    from emitDeserArgs_nonfinal[OF this, of "length (getArgs def)" 0] assms(1) show ?thesis
      by (auto simp: emitDeserializationFunction_def)
  qed
qed

lemma emitLoop_fatal:
  "def \<in> set defs \<Longrightarrow> hasOpcode def \<Longrightarrow>
   (\<exists>e. emitSerializationFunction def = Inl e) \<or> (\<exists>e. emitDeserializationFunction def = Inl e) \<Longrightarrow>
   \<exists>e. emitLoop defs g = Inl e"
proof (induction defs arbitrary: g)
  case Nil
  then show ?case by simp
next
  case (Cons d defs)
  show ?case
  proof (cases "d = def")
    case True
    with Cons.prems(2,3) show ?thesis by (auto split: sum.splits)
  next
    case False
    with Cons.prems have "def \<in> set defs" by simp
    from Cons.IH[OF this Cons.prems(2,3)] have "\<exists>e. emitLoop defs g' = Inl e" for g' .
    then show ?thesis by (auto split: sum.splits)
  qed
qed

text \<open>
  Claim C8, as the code has it. When a definition with \<open>hasOpcode\<close> and
  \<open>autogenSerialization\<close> set has more than one result, an attribute that is neither an
  \<open>I32ArrayAttr\<close>, an enum attribute nor an \<open>I32Attr\<close>, or a variadic operand that
  is not its last argument, the generator ends with a fatal error and leaves no output.
\<close>

theorem malformed_schema_aborts:
  assumes "def \<in> set defs" and "qualifying def" and "malformed def"
  shows "(\<exists>e. emitSerializationFns defs = Inl e) \<and> routers defs = None \<and> generatedFunctions defs = None"
proof -
  from assms(2) have q: "hasOpcode def" "autogenSerialization def" by (simp_all add: qualifying_def)
  from emitLoop_fatal[OF assms(1) q(1) malformed_fatal[OF q(2) assms(3)], of emptyCode]
  obtain e where "emitSerializationFns defs = Inl e" by (auto simp: emitSerializationFns_def)
  then show ?thesis by (simp add: routers_def generatedFunctions_def)
qed

theorem malformed_schema_aborts_witness:
  "routers [scenarioOp, variadicFirstOp] = None \<and> generatedFunctions [scenarioOp, variadicFirstOp] = None"
proof -
  have "variadicFirstOp \<in> set [scenarioOp, variadicFirstOp]" by simp
  moreover have "qualifying variadicFirstOp" by (simp add: qualifying_def variadicFirstOp_def)
  moreover have "malformed variadicFirstOp" by (simp add: malformed_def variadicFirstOp_def)
  ultimately show ?thesis using malformed_schema_aborts by blast
qed

text \<open>
  A definition that opted out of generation is not checked: with two results it still
  gets its dispatch entries.
\<close>

theorem malformed_optOut_counterexample:
  "malformed twoResultOptOutOp \<and>
   routers [twoResultOptOutOp] = Some ([''spirv::TwoResultOp''], [(103, ''spirv::TwoResultOp'')])"
  by (simp add: malformed_def routers_def emitSerializationFns_def emptyCode_def
      twoResultOptOutOp_def emitSerializationFunction_def emitDeserializationFunction_def emitted_def)

section \<open>Bit enums: symbol to string and back\<close>

lemma foldl_or_nonzero:
  "foldl (OR) a (nonzero_values es) = a OR unionOfCases es"
  by (induction es arbitrary: a rule: nonzero_values.induct) (auto simp: or.assoc)

lemma joined_values_union:
  "joined_values (nonzero_values es) = unionOfCases es"
  by (simp add: joined_values_def foldl_or_nonzero)

lemma bit_unionOfCases:
  "bit (unionOfCases es) n \<longleftrightarrow> (\<exists>c \<in> set es. bit (snd c) n)"
  by (induction es rule: unionOfCases.induct) (auto simp: bit_or_iff)

lemma symToStr_body_val:
  "fst (symToStr_body es val strs) = val AND NOT (unionOfCases es)"
proof (induction es val strs rule: symToStr_body.induct)
  case (1 val strs)
  then show ?case by simp
next
  case (2 symb v es val strs)
  have a: "(val AND NOT v) AND NOT (unionOfCases es) = val AND NOT (v OR unionOfCases es)"
    by (rule bit_eqI) (auto simp: bit_and_iff bit_or_iff bit_not_iff)
  have b: "v AND val = 0 \<Longrightarrow> val AND NOT (unionOfCases es) = val AND NOT (v OR unionOfCases es)"
  proof -
    assume z: "v AND val = 0"
    have nb: "\<not> (bit v n \<and> bit val n)" for n
    proof -
      from z have "bit (v AND val) n = bit (0::32 word) n" by simp
      then show ?thesis by (simp add: bit_and_iff)
    qed
    show ?thesis
    proof (rule bit_eqI)
      fix n
      from nb[of n] show "bit (val AND NOT (unionOfCases es)) n = bit (val AND NOT (v OR unionOfCases es)) n"
        by (auto simp: bit_and_iff bit_or_iff bit_not_iff)
    qed
  qed
  show ?case
  proof (cases "v \<noteq> 0")
    case True
    show ?thesis
    proof (cases "v AND val \<noteq> 0")
      case t: True
      from True t have "symToStr_body ((symb, v) # es) val strs = symToStr_body es (val AND NOT v) (strs @ [symb])"
        by simp
      moreover from "2.IH"(1)[OF True t]
      have "fst (symToStr_body es (val AND NOT v) (strs @ [symb])) = (val AND NOT v) AND NOT (unionOfCases es)" .
      ultimately show ?thesis
        by (simp only: a unionOfCases.simps)
    next
      case f: False
      from True f have "symToStr_body ((symb, v) # es) val strs = symToStr_body es val strs"
        by simp
      moreover from "2.IH"(2)[OF True f]
      have "fst (symToStr_body es val strs) = val AND NOT (unionOfCases es)" .
      moreover from f have "v AND val = 0" by simp
      ultimately show ?thesis
        by (simp only: b unionOfCases.simps)
    qed
  next
    case False
    then have v0: "v = 0" by simp
    from False have "symToStr_body ((symb, v) # es) val strs = symToStr_body es val strs"
      by simp
    moreover from "2.IH"(3)[OF False]
    have "fst (symToStr_body es val strs) = val AND NOT (unionOfCases es)" .
    ultimately show ?thesis
      by (simp add: v0)
  qed
qed

lemma singleBit_iff: "singleBit x \<longleftrightarrow> (\<exists>k<32. x = 2 ^ k)"
  by (auto simp: singleBit_def list_ex_iff)

lemma singleBit_subset:
  assumes "singleBit x" and "x AND val \<noteq> 0" and "bit x n"
  shows "bit val n"
proof -
  from assms(1) obtain k where k: "k < 32" "x = 2 ^ k" by (auto simp: singleBit_iff)
  from assms(2) obtain m where "bit (x AND val) m"
    by (auto simp: bit_eq_iff)
  then have "bit x m" "bit val m" by (simp_all add: bit_and_iff)
  with k have "m = k" by (simp add: bit_exp_iff)
  moreover from assms(3) k have "n = k" by (simp add: bit_exp_iff)
  ultimately show ?thesis using \<open>bit val m\<close> by simp
qed

lemma or_selected:
  assumes "singleBit x" and "x AND val \<noteq> 0"
  shows "x OR ((val AND NOT x) AND u) = val AND (x OR u)"
proof (rule bit_eqI)
  fix n
  from singleBit_subset[OF assms, of n]
  show "bit (x OR ((val AND NOT x) AND u)) n = bit (val AND (x OR u)) n"
    by (auto simp: bit_and_iff bit_or_iff bit_not_iff dest: bit_imp_le_length)
qed

lemma and_unselected:
  assumes "x AND val = 0"
  shows "val AND u = val AND (x OR u)"
proof (rule bit_eqI)
  fix n
  from assms have "bit (x AND val) n = bit (0::32 word) n" by simp
  then have "\<not> (bit x n \<and> bit val n)" by (simp add: bit_and_iff)
  then show "bit (val AND u) n = bit (val AND (x OR u)) n"
    by (auto simp: bit_and_iff bit_or_iff)
qed

lemma symToStr_body_strs:
  assumes "list_all (\<lambda>c. snd c = 0 \<or> singleBit (snd c)) es"
  shows "\<exists>sel. snd (symToStr_body es val strs) = strs @ map fst sel
             \<and> set sel \<subseteq> {c \<in> set es. snd c \<noteq> 0}
             \<and> unionOfCases sel = val AND unionOfCases es"
  using assms
proof (induction es val strs rule: symToStr_body.induct)
  case (1 val strs)
  have "snd (symToStr_body [] val strs) = strs @ map fst ([]::enumerant list)
      \<and> set ([]::enumerant list) \<subseteq> {c \<in> set []. snd c \<noteq> 0}
      \<and> unionOfCases [] = val AND unionOfCases []" by simp
  then show ?case by blast
next
  case (2 symb v es val strs)
  from "2.prems" have rest: "list_all (\<lambda>c. snd c = 0 \<or> singleBit (snd c)) es"
    and vbit: "v = 0 \<or> singleBit v" by simp_all
  show ?case
  proof (cases "v \<noteq> 0")
    case True
    with vbit have sb: "singleBit v" by simp
    show ?thesis
    proof (cases "v AND val \<noteq> 0")
      case t: True
      from True t have unf: "symToStr_body ((symb, v) # es) val strs = symToStr_body es (val AND NOT v) (strs @ [symb])"
        by simp
      from "2.IH"(1)[OF True t rest] obtain sel where
        s1: "snd (symToStr_body es (val AND NOT v) (strs @ [symb])) = (strs @ [symb]) @ map fst sel"
        and s2: "set sel \<subseteq> {c \<in> set es. snd c \<noteq> 0}"
        and s3: "unionOfCases sel = (val AND NOT v) AND unionOfCases es" by blast
      have "snd (symToStr_body ((symb, v) # es) val strs) = strs @ map fst ((symb, v) # sel)"
        using unf s1 by simp
      moreover have "set ((symb, v) # sel) \<subseteq> {c \<in> set ((symb, v) # es). snd c \<noteq> 0}"
        using s2 True by auto
      moreover have "unionOfCases ((symb, v) # sel) = val AND unionOfCases ((symb, v) # es)"
        using s3 or_selected[OF sb t] by simp
      ultimately show ?thesis by blast
    next
      case f: False
      from True f have unf: "symToStr_body ((symb, v) # es) val strs = symToStr_body es val strs"
        by simp
      from "2.IH"(2)[OF True f rest] obtain sel where
        s1: "snd (symToStr_body es val strs) = strs @ map fst sel"
        and s2: "set sel \<subseteq> {c \<in> set es. snd c \<noteq> 0}"
        and s3: "unionOfCases sel = val AND unionOfCases es" by blast
      from f have z: "v AND val = 0" by simp
      have "snd (symToStr_body ((symb, v) # es) val strs) = strs @ map fst sel"
        using unf s1 by simp
      moreover have "set sel \<subseteq> {c \<in> set ((symb, v) # es). snd c \<noteq> 0}"
        using s2 by auto
      moreover have "unionOfCases sel = val AND unionOfCases ((symb, v) # es)"
        using s3 and_unselected[OF z] by simp
      ultimately show ?thesis by blast
    qed
  next
    case False
    then have v0: "v = 0" by simp
    from False have unf: "symToStr_body ((symb, v) # es) val strs = symToStr_body es val strs"
      by simp
    from "2.IH"(3)[OF False rest] obtain sel where
      s1: "snd (symToStr_body es val strs) = strs @ map fst sel"
      and s2: "set sel \<subseteq> {c \<in> set es. snd c \<noteq> 0}"
      and s3: "unionOfCases sel = val AND unionOfCases es" by blast
    have "snd (symToStr_body ((symb, v) # es) val strs) = strs @ map fst sel"
      using unf s1 by simp
    moreover have "set sel \<subseteq> {c \<in> set ((symb, v) # es). snd c \<noteq> 0}"
      using s2 by auto
    moreover have "unionOfCases sel = val AND unionOfCases ((symb, v) # es)"
      using s3 v0 by simp
    ultimately show ?thesis by blast
  qed
qed

lemma stringSwitch_finds:
  "distinct (map fst es) \<Longrightarrow> (symb, v) \<in> set es \<Longrightarrow> v \<noteq> 0 \<Longrightarrow> stringSwitch es symb = Some v"
proof (induction es symb rule: stringSwitch.induct)
  case (1 symbol)
  then show ?case by simp
next
  case (2 s w es symbol)
  show ?case
  proof (cases "(symbol, v) = (s, w)")
    case True
    with "2.prems" show ?thesis by simp
  next
    case False
    with "2.prems" have mem: "(symbol, v) \<in> set es" by auto
    then have "symbol \<in> fst ` set es" by force
    with "2.prems"(1) have ne: "symbol \<noteq> s" by auto
    from "2.prems"(1) have d: "distinct (map fst es)" by simp
    show ?thesis
    proof (cases "w \<noteq> 0")
      case True
      from "2.IH"(1)[OF True ne d mem "2.prems"(3)] True ne show ?thesis by simp
    next
      case f: False
      from "2.IH"(2)[OF f d mem "2.prems"(3)] f show ?thesis by simp
    qed
  qed
qed

lemma stringSwitch_nonzero:
  "stringSwitch es symbol = Some b \<Longrightarrow> b \<noteq> 0"
  by (induction es symbol rule: stringSwitch.induct) (auto split: if_splits)

lemma strToSym_loop_selected:
  "list_all (\<lambda>c. stringSwitch es (fst c) = Some (snd c)) sel \<Longrightarrow>
   strToSym_loop es (map fst sel) val = Some (val OR unionOfCases sel)"
proof (induction sel arbitrary: val)
  case Nil
  then show ?case by simp
next
  case (Cons c sel)
  obtain symb v where c: "c = (symb, v)" by (cases c)
  from Cons.prems c have h: "stringSwitch es symb = Some v"
    and rest: "list_all (\<lambda>c. stringSwitch es (fst c) = Some (snd c)) sel" by simp_all
  from Cons.IH[OF rest, of "val OR v"] h c show ?case
    by (simp add: or.assoc)
qed

lemma strToSym_loop_nonzero:
  "strToSym_loop es symbols val = Some r \<Longrightarrow> val \<noteq> 0 \<Longrightarrow> r \<noteq> 0"
proof (induction symbols arbitrary: val)
  case Nil
  then show ?case by simp
next
  case (Cons symbol symbols)
  from Cons.prems(1) obtain b where b: "stringSwitch es symbol = Some b"
    and r: "strToSym_loop es symbols (val OR b) = Some r"
    by (auto split: option.splits)
  from Cons.prems(2) have "val OR b \<noteq> 0" by (simp add: or_eq_0_iff)
  from Cons.IH[OF r this] show ?case .
qed

lemma split_str_last: "find_str sep s = None \<Longrightarrow> split_str sep s = Some [s]"
  by (subst split_str.simps) (simp only: option.case)

lemma split_str_step:
  "find_str sep s = Some idx \<Longrightarrow>
   split_str sep s =
     Option.bind (split_str sep (drop (idx + length sep) s)) (\<lambda>rest. Some (take idx s # rest))"
  by (subst split_str.simps) (simp only: option.case)

lemma not_prefix_disjoint:
  assumes "sep \<noteq> []" and "c \<notin> set sep"
  shows "\<not> prefix sep (c # cs)"
proof
  assume p: "prefix sep (c # cs)"
  from assms(1) obtain a sep' where sep: "sep = a # sep'" by (cases sep) auto
  with p have "a = c" by simp
  with sep assms(2) show False by simp
qed

lemma find_str_absent:
  "sep \<noteq> [] \<Longrightarrow> set s \<inter> set sep = {} \<Longrightarrow> find_str sep s = None"
proof (induction s)
  case Nil
  then show ?case by simp
next
  case (Cons c cs)
  from Cons.prems(2) have c: "c \<notin> set sep" and rest: "set cs \<inter> set sep = {}" by auto
  from not_prefix_disjoint[OF Cons.prems(1) c] Cons.IH[OF Cons.prems(1) rest]
  show ?case by simp
qed

lemma find_str_at:
  "sep \<noteq> [] \<Longrightarrow> set s \<inter> set sep = {} \<Longrightarrow> find_str sep (s @ sep @ t) = Some (length s)"
proof (induction s)
  case Nil
  from Nil(1) obtain a sep' where sep: "sep = a # sep'" by (cases sep) auto
  then show ?case by simp
next
  case (Cons c cs)
  from Cons.prems(2) have c: "c \<notin> set sep" and rest: "set cs \<inter> set sep = {}" by auto
  from not_prefix_disjoint[OF Cons.prems(1) c] Cons.IH[OF Cons.prems(1) rest]
  show ?case by simp
qed

lemma split_join:
  "sep \<noteq> [] \<Longrightarrow> names \<noteq> [] \<Longrightarrow> list_all (\<lambda>n. set n \<inter> set sep = {}) names \<Longrightarrow>
   split_str sep (join names sep) = Some names"
proof (induction names sep rule: join.induct)
  case (1 sep)
  then show ?case by simp
next
  case (2 s sep)
  then have "find_str sep s = None" by (simp add: find_str_absent)
  then show ?case by (simp add: split_str_last)
next
  case (3 s t ss sep)
  from "3.prems" have d: "set s \<inter> set sep = {}"
    and rest: "list_all (\<lambda>n. set n \<inter> set sep = {}) (t # ss)" by simp_all
  have f: "find_str sep (s @ sep @ join (t # ss) sep) = Some (length s)"
    using "3.prems"(1) d by (rule find_str_at)
  have ih: "split_str sep (join (t # ss) sep) = Some (t # ss)"
    using "3.IH"[OF "3.prems"(1) _ rest] by simp
  have "split_str sep (s @ sep @ join (t # ss) sep) = Some (s # t # ss)"
    by (subst split_str_step[OF f]) (simp add: ih)
  then show ?case by simp
qed

lemma join_contains_sep:
  "set sep \<subseteq> set (join (s # t # ss) sep)"
  by auto

lemma split_str_nonempty:
  assumes "split_str sep s = Some symbols"
  shows "symbols \<noteq> []"
proof (cases "find_str sep s")
  case None
  with split_str_last[OF None] assms show ?thesis by simp
next
  case (Some idx)
  show ?thesis
  proof (cases "split_str sep (drop (idx + length sep) s)")
    case None
    with split_str_step[OF Some] assms show ?thesis by simp
  next
    case (Some rest)
    with split_str_step[OF \<open>find_str sep s = Some idx\<close>] assms show ?thesis by auto
  qed
qed

text \<open>
  The split returns for every separator that is not empty, and for no other.
\<close>

lemma find_str_empty_separator: "find_str [] s = Some 0"
  by (cases s) simp_all

lemma split_str_needs_separator:
  assumes "split_str sep0 s0 = Some y0"
  shows "sep0 \<noteq> []"
proof (rule split_str.raw_induct[where P = "\<lambda>sep s y. sep \<noteq> []", OF _ assms])
  fix split :: "string \<Rightarrow> string \<Rightarrow> string list option" and sep s y
  assume ih: "\<And>sep s y. split sep s = Some y \<Longrightarrow> sep \<noteq> []"
    and body: "(case find_str sep s of
                  None \<Rightarrow> Some [s]
                | Some idx \<Rightarrow>
                    Option.bind (split sep (drop (idx + length sep) s))
                      (\<lambda>rest. Some (take idx s # rest))) = Some y"
  show "sep \<noteq> []"
  proof
    assume e: "sep = []"
    with body obtain r where "split [] s = Some r"
      by (auto simp: find_str_empty_separator bind_eq_Some_conv)
    from ih[OF this] show False by simp
  qed
qed

lemma split_str_empty_separator: "split_str [] s = None"
proof (cases "split_str [] s")
  case None
  then show ?thesis .
next
  case (Some y)
  from split_str_needs_separator[OF Some] show ?thesis by simp
qed

lemma find_str_bound:
  "find_str sep s = Some idx \<Longrightarrow> idx + length sep \<le> length s"
proof (induction s arbitrary: idx)
  case Nil
  then show ?case by (simp split: if_splits)
next
  case (Cons c cs)
  show ?case
  proof (cases "prefix sep (c # cs)")
    case True
    with Cons.prems have "idx = 0" by simp
    with prefix_length_le[OF True] show ?thesis by simp
  next
    case False
    with Cons.prems obtain j where "find_str sep cs = Some j" "idx = Suc j" by auto
    with Cons.IH[of j] show ?thesis by simp
  qed
qed

lemma split_str_returns:
  "sep \<noteq> [] \<Longrightarrow> \<exists>symbols. split_str sep s = Some symbols"
proof (induction "length s" arbitrary: s rule: less_induct)
  case less
  show ?case
  proof (cases "find_str sep s")
    case None
    then show ?thesis by (simp add: split_str_last)
  next
    case (Some idx)
    from find_str_bound[OF Some] less.prems
    have "length (drop (idx + length sep) s) < length s" by (cases sep) auto
    from less.hyps[OF this less.prems] obtain r where
      "split_str sep (drop (idx + length sep) s) = Some r" by blast
    then show ?thesis by (simp add: split_str_step[OF Some])
  qed
qed

lemma toName_fromName:
  assumes wf: "wellFormedBitEnum e" and cov: "v AND NOT (caseUnion e) = 0" and nz: "v \<noteq> 0"
  shows "emitStrToSymFnForBitEnum e (emitSymToStrFnForBitEnum e v) = Some (Some v)"
proof -
  let ?es = "getAllCases e" and ?sep = "separator e"
  from wf have sep: "?sep \<noteq> []" and none: "(''None'', 0) \<in> set ?es"
    and dist: "distinct (map fst ?es)"
    and chars: "list_all (\<lambda>c. set (fst c) \<inter> set ?sep = {}) ?es"
    and bits: "list_all (\<lambda>c. snd c = 0 \<or> singleBit (snd c)) ?es"
    by (simp_all add: wellFormedBitEnum_def)
  obtain val strs where body: "symToStr_body ?es v [] = (val, strs)"
    by (cases "symToStr_body ?es v []")
  from symToStr_body_val[of ?es v "[]"] body cov have val0: "val = 0"
    by (simp add: caseUnion_def)
  from symToStr_body_strs[OF bits, of v "[]"] body obtain sel where
    strs: "strs = map fst sel" and sub: "set sel \<subseteq> {c \<in> set ?es. snd c \<noteq> 0}"
    and orv: "unionOfCases sel = v AND unionOfCases ?es" by auto
  have "v AND unionOfCases ?es = v"
  proof (rule bit_eqI)
    fix n
    from cov have "bit (v AND NOT (unionOfCases ?es)) n = bit (0::32 word) n"
      by (simp add: caseUnion_def)
    then show "bit (v AND unionOfCases ?es) n = bit v n"
      by (auto simp: bit_and_iff bit_not_iff dest: bit_imp_le_length)
  qed
  with orv have orv: "unionOfCases sel = v" by simp
  with nz have selne: "sel \<noteq> []" by auto
  have toName: "emitSymToStrFnForBitEnum e v = join strs ?sep"
    using nz body val0 by (simp add: emitSymToStrFnForBitEnum_def)
  have strs_chars: "list_all (\<lambda>n. set n \<inter> set ?sep = {}) strs"
    using chars sub strs by (auto simp: list_all_iff)
  have split: "split_str ?sep (join strs ?sep) = Some strs"
    using sep selne strs_chars by (intro split_join) (simp_all add: strs)
  have lookup: "list_all (\<lambda>c. stringSwitch ?es (fst c) = Some (snd c)) sel"
    unfolding list_all_iff
  proof
    fix c assume "c \<in> set sel"
    with sub have "(fst c, snd c) \<in> set ?es" "snd c \<noteq> 0" by auto
    with dist show "stringSwitch ?es (fst c) = Some (snd c)" by (rule stringSwitch_finds)
  qed
  have loop: "strToSym_loop ?es strs 0 = Some v"
    using strToSym_loop_selected[OF lookup, of 0] orv strs by simp
  have nonone: "join strs ?sep \<noteq> ''None''"
  proof
    assume eq: "join strs ?sep = ''None''"
    from none chars have sepNone: "set ''None'' \<inter> set ?sep = {}"
      by (auto simp: list_all_iff)
    show False
    proof (cases strs)
      case Nil
      with selne strs show False by simp
    next
      case (Cons s rest)
      show False
      proof (cases rest)
        case Nil
        with Cons eq have "s = ''None''" by simp
        with Cons have "''None'' \<in> set strs" by simp
        with strs have "''None'' \<in> fst ` set sel" by simp
        then obtain c where c: "c \<in> set sel" "fst c = ''None''" by auto
        with sub have cm: "c \<in> set ?es" and z: "snd c \<noteq> 0" by auto
        from cm c(2) have m: "(''None'', snd c) \<in> set ?es" by (metis prod.collapse)
        from dist none m have "snd c = 0"
          by (meson eq_key_imp_eq_value)
        with z show False by simp
      next
        case (Cons t ss)
        with \<open>strs = s # rest\<close> eq join_contains_sep[of ?sep s t ss]
        have "set ?sep \<subseteq> set ''None''" by simp
        with sepNone sep show False by (cases ?sep) auto
      qed
    qed
  qed
  show ?thesis
    unfolding toName emitStrToSymFnForBitEnum_def
    using nonone split loop by simp
qed

lemma singleBit_1: "singleBit 1"
  unfolding singleBit_iff by (rule exI[of _ 0]) simp

lemma singleBit_2: "singleBit 2"
  unfolding singleBit_iff by (rule exI[of _ 1]) simp

lemma singleBit_4: "singleBit 4"
  unfolding singleBit_iff by (rule exI[of _ 2]) simp

lemma wellFormed_rwx: "wellFormedBitEnum rwx_enum"
  by (simp add: wellFormedBitEnum_def rwx_enum_def singleBit_1 singleBit_2 singleBit_4)

text \<open>
  Claim C6, as the code has it. For a bit enum whose separator is not empty, which
  declares the zero case \<open>None\<close>, whose symbols are pairwise distinct and contain no
  character of the separator and whose other case values are single bits, the string of
  a value whose bits are all covered by declared cases is parsed back to that value.
  For every bit enum the string of 0 is \<open>None\<close> and \<open>None\<close> is parsed to 0.
\<close>

theorem bitflag_round_trip:
  "(wellFormedBitEnum e \<longrightarrow> v AND NOT (caseUnion e) = 0 \<longrightarrow>
      emitStrToSymFnForBitEnum e (emitSymToStrFnForBitEnum e v) = Some (Some v))
   \<and> emitSymToStrFnForBitEnum e 0 = ''None''
   \<and> emitStrToSymFnForBitEnum e ''None'' = Some (Some 0)"
proof (intro conjI impI)
  show a: "emitSymToStrFnForBitEnum e 0 = ''None''"
    by (simp add: emitSymToStrFnForBitEnum_def)
  show b: "emitStrToSymFnForBitEnum e ''None'' = Some (Some 0)"
    by (simp add: emitStrToSymFnForBitEnum_def enum_None_def)
  assume wf: "wellFormedBitEnum e" and cov: "v AND NOT (caseUnion e) = 0"
  show "emitStrToSymFnForBitEnum e (emitSymToStrFnForBitEnum e v) = Some (Some v)"
  proof (cases "v = 0")
    case True
    with a b show ?thesis by simp
  next
    case False
    with wf cov show ?thesis by (intro toName_fromName)
  qed
qed

theorem bitflag_round_trip_witness:
  "emitSymToStrFnForBitEnum rwx_enum 5 = ''Read|Execute''
   \<and> emitStrToSymFnForBitEnum rwx_enum ''Read|Execute'' = Some (Some 5)
   \<and> emitSymToStrFnForBitEnum rwx_enum 0 = ''None''
   \<and> emitStrToSymFnForBitEnum rwx_enum ''None'' = Some (Some 0)"
proof -
  have cov: "(5::32 word) AND NOT (caseUnion rwx_enum) = 0"
    by (simp add: caseUnion_def rwx_enum_def)
  have n: "emitSymToStrFnForBitEnum rwx_enum 5 = ''Read|Execute''"
    by (simp add: emitSymToStrFnForBitEnum_def rwx_enum_def)
  from bitflag_round_trip[of rwx_enum 5] wellFormed_rwx cov n show ?thesis by simp
qed

text \<open>
  With a case that is a mask, the value 1 is covered by declared cases, its string is
  the name of the mask, and that name is parsed to 3.
\<close>

theorem bitflag_round_trip_counterexample:
  "(1::32 word) AND NOT (caseUnion maskEnum) = 0
   \<and> emitSymToStrFnForBitEnum maskEnum 1 = ''ReadWrite''
   \<and> emitStrToSymFnForBitEnum maskEnum ''ReadWrite'' = Some (Some 3)"
  by (simp add: caseUnion_def maskEnum_def emitSymToStrFnForBitEnum_def
      emitStrToSymFnForBitEnum_def split_str_last)

text \<open>
  The condition on the symbols is needed as well: a symbol with the separator in it is
  split into pieces that match no case.
\<close>

lemma round_trip_needs_separator_free_symbols:
  "emitSymToStrFnForBitEnum
     \<lparr> getEnumClassName = ''E'', getAllCases = [(''None'', 0), (''A|B'', 1)], separator = ''|'' \<rparr> 1 = ''A|B''
   \<and> emitStrToSymFnForBitEnum
     \<lparr> getEnumClassName = ''E'', getAllCases = [(''None'', 0), (''A|B'', 1)], separator = ''|'' \<rparr> ''A|B'' = Some None"
  by (simp add: emitSymToStrFnForBitEnum_def emitStrToSymFnForBitEnum_def split_str_last split_str_step)

text \<open>
  Claim C7. For every bit enum, the string of a value with a bit that no declared case
  has is the empty string.
\<close>

theorem toName_unknown_bit:
  assumes "bit v n" and "\<forall>c \<in> set (getAllCases e). \<not> bit (snd c) n"
  shows "emitSymToStrFnForBitEnum e v = ''''"
proof -
  obtain val strs where body: "symToStr_body (getAllCases e) v [] = (val, strs)"
    by (cases "symToStr_body (getAllCases e) v []")
  from symToStr_body_val[of "getAllCases e" v "[]"] body
  have val: "val = v AND NOT (unionOfCases (getAllCases e))" by simp
  from assms(2) have "\<not> bit (unionOfCases (getAllCases e)) n"
    by (simp add: bit_unionOfCases)
  with assms(1) have "bit val n"
    unfolding val by (auto simp: bit_and_iff bit_not_iff dest: bit_imp_le_length)
  then have "val \<noteq> 0" by auto
  moreover from assms(1) have "v \<noteq> 0" by auto
  ultimately show ?thesis
    by (simp add: emitSymToStrFnForBitEnum_def body)
qed

theorem toName_unknown_bit_witness:
  "emitSymToStrFnForBitEnum rwx_enum 8 = '''' \<and> emitSymToStrFnForBitEnum rwx_enum 12 = ''''"
proof -
  have b8: "bit (8::32 word) 3" by simp
  have b12: "bit (12::32 word) 3" by simp
  have bits: "\<not> bit (0::32 word) 3" "\<not> bit (1::32 word) 3" "\<not> bit (2::32 word) 3"
      "\<not> bit (4::32 word) 3"
    by simp_all
  have nc: "\<forall>c \<in> set (getAllCases rwx_enum). \<not> bit (snd c) (3::nat)"
    unfolding rwx_enum_def using bits by simp
  from toName_unknown_bit[OF b8 nc] toName_unknown_bit[OF b12 nc] show ?thesis
    by (rule conjI)
qed

text \<open>
  Claim C9. For every bit enum, the function from the underlying integer maps 0 to
  \<open>None\<close>, gives no symbol for a value with a bit outside the union of all declared case
  values, and gives every other value back unchanged.
\<close>

theorem underlyingToSym_cases:
  "emitUnderlyingToSymFnForBitEnum e 0 = Some enum_None
   \<and> (value AND NOT (caseUnion e) \<noteq> 0 \<longrightarrow> emitUnderlyingToSymFnForBitEnum e value = None)
   \<and> (value \<noteq> 0 \<longrightarrow> value AND NOT (caseUnion e) = 0 \<longrightarrow>
        emitUnderlyingToSymFnForBitEnum e value = Some value)"
proof (intro conjI impI)
  show "emitUnderlyingToSymFnForBitEnum e 0 = Some enum_None"
    by (simp add: emitUnderlyingToSymFnForBitEnum_def)
next
  assume out: "value AND NOT (caseUnion e) \<noteq> 0"
  then have "value \<noteq> 0" by (cases "value = 0") simp_all
  with out show "emitUnderlyingToSymFnForBitEnum e value = None"
    by (simp add: emitUnderlyingToSymFnForBitEnum_def joined_values_union caseUnion_def)
next
  assume "value \<noteq> 0" and "value AND NOT (caseUnion e) = 0"
  then show "emitUnderlyingToSymFnForBitEnum e value = Some value"
    by (simp add: emitUnderlyingToSymFnForBitEnum_def joined_values_union caseUnion_def)
qed

theorem underlyingToSym_cases_witness:
  "emitUnderlyingToSymFnForBitEnum rwx_enum 0 = Some 0
   \<and> emitUnderlyingToSymFnForBitEnum rwx_enum 9 = None
   \<and> emitUnderlyingToSymFnForBitEnum rwx_enum 6 = Some 6"
proof -
  have u: "caseUnion rwx_enum = 7" by (simp add: caseUnion_def rwx_enum_def)
  from underlyingToSym_cases[of rwx_enum 9] underlyingToSym_cases[of rwx_enum 6]
  show ?thesis by (simp add: u enum_None_def)
qed

lemma stringSwitch_empty_none:
  "list_all (\<lambda>c. snd c = 0 \<or> fst c \<noteq> []) es \<Longrightarrow> stringSwitch es [] = None"
proof (induction es)
  case Nil
  then show ?case by simp
next
  case (Cons c es)
  obtain symb v where c: "c = (symb, v)" by (cases c)
  from Cons.prems c have h: "v = 0 \<or> symb \<noteq> []"
    and rest: "list_all (\<lambda>c. snd c = 0 \<or> fst c \<noteq> []) es" by simp_all
  from Cons.IH[OF rest] h c show ?case by auto
qed

lemma stringSwitch_empty_some:
  "\<not> list_all (\<lambda>c. snd c = 0 \<or> fst c \<noteq> []) es \<Longrightarrow> \<exists>b. stringSwitch es [] = Some b"
proof (induction es)
  case Nil
  then show ?case by simp
next
  case (Cons c es)
  obtain symb v where c: "c = (symb, v)" by (cases c)
  show ?case
  proof (cases "v \<noteq> 0 \<and> symb = []")
    case True
    with c show ?thesis by simp
  next
    case False
    with Cons.prems c have "\<not> list_all (\<lambda>c. snd c = 0 \<or> fst c \<noteq> []) es" by auto
    from Cons.IH[OF this] obtain b where "stringSwitch es [] = Some b" by blast
    with False c show ?thesis by auto
  qed
qed

lemma fromName_empty_is_switch:
  assumes "separator e \<noteq> []"
  shows "emitStrToSymFnForBitEnum e [] = Some (stringSwitch (getAllCases e) [])"
proof -
  from assms have "find_str (separator e) [] = None" by simp
  then have "split_str (separator e) [] = Some [[]]" by (rule split_str_last)
  then show ?thesis
    by (simp add: emitStrToSymFnForBitEnum_def split: option.splits)
qed

lemma fromName_zero_only_None:
  assumes r: "emitStrToSymFnForBitEnum e str = Some (Some 0)"
  shows "str = ''None''"
proof (rule ccontr)
  assume ne: "str \<noteq> ''None''"
  with r obtain symbols where sp: "split_str (separator e) str = Some symbols"
    and lp: "strToSym_loop (getAllCases e) symbols 0 = Some 0"
    by (auto simp: emitStrToSymFnForBitEnum_def split: option.splits)
  from split_str_nonempty[OF sp] obtain symbol rest where sy: "symbols = symbol # rest"
    by (cases symbols) auto
  with lp obtain bt where bt: "stringSwitch (getAllCases e) symbol = Some bt"
    and lp2: "strToSym_loop (getAllCases e) rest (0 OR bt) = Some 0"
    by (auto split: option.splits)
  from stringSwitch_nonzero[OF bt] have "0 OR bt \<noteq> 0" by simp
  from strToSym_loop_nonzero[OF lp2 this] show False by simp
qed

text \<open>
  Claim C10, as the code has it. For every bit enum with a separator that is not empty,
  parsing the empty string fails when no case with a value other than 0 has the empty
  symbol, and gives the value of such a case, which is not 0, when there is one. With
  the empty separator the split makes no progress and the call does not return. For
  every bit enum the only string parsed to 0 is \<open>None\<close>.
\<close>

theorem fromName_empty_string:
  "(separator e \<noteq> [] \<longrightarrow> symbolsNonEmpty e \<longrightarrow> emitStrToSymFnForBitEnum e '''' = Some None)
   \<and> (separator e \<noteq> [] \<longrightarrow> \<not> symbolsNonEmpty e \<longrightarrow>
        (\<exists>b. b \<noteq> 0 \<and> emitStrToSymFnForBitEnum e '''' = Some (Some b)))
   \<and> (separator e = [] \<longrightarrow> emitStrToSymFnForBitEnum e '''' = None)
   \<and> (\<forall>str. emitStrToSymFnForBitEnum e str = Some (Some 0) \<longrightarrow> str = ''None'')"
proof (intro conjI impI allI)
  assume "separator e \<noteq> []" and "symbolsNonEmpty e"
  then show "emitStrToSymFnForBitEnum e '''' = Some None"
    by (simp add: fromName_empty_is_switch stringSwitch_empty_none symbolsNonEmpty_def)
next
  assume s: "separator e \<noteq> []" and n: "\<not> symbolsNonEmpty e"
  from n obtain b where b: "stringSwitch (getAllCases e) [] = Some b"
    unfolding symbolsNonEmpty_def by (blast dest: stringSwitch_empty_some)
  from stringSwitch_nonzero[OF b] b fromName_empty_is_switch[OF s]
  show "\<exists>b. b \<noteq> 0 \<and> emitStrToSymFnForBitEnum e '''' = Some (Some b)" by simp
next
  assume "separator e = []"
  then show "emitStrToSymFnForBitEnum e '''' = None"
    by (simp add: emitStrToSymFnForBitEnum_def split_str_empty_separator)
next
  fix str
  assume "emitStrToSymFnForBitEnum e str = Some (Some 0)"
  then show "str = ''None''" by (rule fromName_zero_only_None)
qed

theorem fromName_empty_string_witness:
  "emitStrToSymFnForBitEnum rwx_enum '''' = Some None
   \<and> emitStrToSymFnForBitEnum emptySeparatorEnum '''' = None"
proof -
  have s: "separator rwx_enum \<noteq> []" by (simp add: rwx_enum_def)
  have n: "symbolsNonEmpty rwx_enum" by (simp add: symbolsNonEmpty_def rwx_enum_def)
  have z: "separator emptySeparatorEnum = []" by (simp add: emptySeparatorEnum_def)
  from fromName_empty_string[of rwx_enum] s n
  have "emitStrToSymFnForBitEnum rwx_enum [] = Some None" by blast
  moreover from fromName_empty_string[of emptySeparatorEnum] z
  have "emitStrToSymFnForBitEnum emptySeparatorEnum [] = None" by blast
  ultimately show ?thesis by (rule conjI)
qed

text \<open>
  With the empty string as separator the parse of the empty string does not return, so
  it does not return the failure value.
\<close>

theorem fromName_empty_string_counterexample:
  "emitStrToSymFnForBitEnum emptySeparatorEnum '''' = None
   \<and> emitStrToSymFnForBitEnum emptySeparatorEnum '''' \<noteq> Some None"
  by (simp add: emitStrToSymFnForBitEnum_def emptySeparatorEnum_def split_str_empty_separator)

end
